theory Spec2Isabelle
  imports Main "HOL-Library.Word"
begin

unbundle bit_operations_syntax

section \<open>Data model\<close>

text \<open>
  The freeing-bump allocator of \<^verbatim>\<open>runtime/allocator.go\<close> and the \<^verbatim>\<open>median\<close> function of
  the slot-timing file. Go's \<^verbatim>\<open>uint32\<close>, \<^verbatim>\<open>uint8\<close> and \<^verbatim>\<open>uint64\<close> are words of that width,
  so every addition and subtraction wraps as it does in Go; \<^verbatim>\<open>uint\<close> is taken as 64 bits
  wide and \<^verbatim>\<open>int\<close> as a mathematical integer (no value of type \<^verbatim>\<open>int\<close> in this code
  leaves the range \<open>-3 .. 2^63\<close>).
\<close>

type_synonym u8 = "8 word"
type_synonym u32 = "32 word"
type_synonym u64 = "64 word"

text \<open>
  The errors the code returns, and \<open>RuntimePanic\<close> for the panic of Go's runtime when an
  index or a slice bound is out of range. A panic is not a returned error: the call does
  not return, and what was written before it stays written.
\<close>

datatype error =
    SizeTooLarge        \<comment> \<open>\<^verbatim>\<open>"Error: size to large"\<close>\<close>
  | OutOfSpace          \<comment> \<open>\<^verbatim>\<open>"Error: allocator out of space"\<close>\<close>
  | InvalidPointer      \<comment> \<open>\<^verbatim>\<open>"Invalid pointer for deallocation"\<close>\<close>
  | EmptyArrivalTimes   \<comment> \<open>\<^verbatim>\<open>"Arrival times list is empty!"\<close>\<close>
  | RuntimePanic        \<comment> \<open>index out of range, slice bounds out of range\<close>

text \<open>
  \<^verbatim>\<open>wasm.Memory\<close> belongs to the wasmer binding, not to this repository. The allocator uses
  \<^verbatim>\<open>Length()\<close> (a \<^verbatim>\<open>uint32\<close>) and \<^verbatim>\<open>Data()\<close>, a byte slice of that length and capacity
  that aliases the memory. The bytes are a function of the index; an index reaches a byte
  only after the bounds check that Go makes.
\<close>

record memory =
  mem_length :: u32
  mem_data :: "nat \<Rightarrow> u8"

definition ALIGNMENT :: u32 where
  "ALIGNMENT = 8"

definition N :: nat where
  "N = 22"

definition MAX_POSSIBLE_ALLOCATION :: u32 where
  "MAX_POSSIBLE_ALLOCATION = 16777216"

text \<open>
  \<^verbatim>\<open>heads\<close> is the array \<^verbatim>\<open>[N]uint32\<close>: a function of the index, read and written only at
  indices below \<open>N\<close> (an index outside panics).
\<close>

record allocator =
  bumper :: u32
  heads :: "nat \<Rightarrow> u32"
  heap :: memory
  max_heap_size :: u32
  ptr_offset :: u32
  total_size :: u32

section \<open>Construction\<close>

definition newAllocator :: "memory \<Rightarrow> u32 \<Rightarrow> allocator" where
  "newAllocator mem offs =
     (let current_size = mem_length mem;
          heap_size = current_size - offs;
          padding = offs mod ALIGNMENT;
          offs' = (if padding \<noteq> 0 then offs + (ALIGNMENT - padding) else offs)
      in \<lparr> bumper = 0, heads = (\<lambda>_. 0), heap = mem, max_heap_size = heap_size,
           ptr_offset = offs', total_size = 0 \<rparr>)"

section \<open>Heap accessors\<close>

text \<open>\<^verbatim>\<open>Data()[i]\<close> and \<^verbatim>\<open>Data()[a:b]\<close> with their bounds checks.\<close>

definition index_ok :: "memory \<Rightarrow> u32 \<Rightarrow> bool" where
  "index_ok m i \<longleftrightarrow> i < mem_length m"

definition slice_ok :: "memory \<Rightarrow> u32 \<Rightarrow> u32 \<Rightarrow> bool" where
  "slice_ok m a b \<longleftrightarrow> a \<le> b \<and> b \<le> mem_length m"

definition set_heap :: "allocator \<Rightarrow> u32 \<Rightarrow> u8 \<Rightarrow> allocator option" where
  "set_heap fbha ptr v =
     (let i = ptr_offset fbha + ptr in
      if index_ok (heap fbha) i
      then Some (fbha\<lparr>heap := (heap fbha)\<lparr>mem_data := (mem_data (heap fbha))(unat i := v)\<rparr>\<rparr>)
      else None)"

definition get_heap_byte :: "allocator \<Rightarrow> u32 \<Rightarrow> u8 option" where
  "get_heap_byte fbha ptr =
     (let i = ptr_offset fbha + ptr in
      if index_ok (heap fbha) i then Some (mem_data (heap fbha) (unat i)) else None)"

definition get_heap_4bytes :: "allocator \<Rightarrow> u32 \<Rightarrow> u8 list option" where
  "get_heap_4bytes fbha ptr =
     (let a = ptr_offset fbha + ptr; b = ptr_offset fbha + ptr + 4 in
      if slice_ok (heap fbha) a b
      then Some (map (\<lambda>k. mem_data (heap fbha) (unat a + k)) [0 ..< unat (b - a)])
      else None)"

text \<open>\<^verbatim>\<open>copy(dst, src)\<close> writes the first \<open>min (len dst) (len src)\<close> bytes of \<open>src\<close>.\<close>

fun copy_bytes :: "(nat \<Rightarrow> u8) \<Rightarrow> nat \<Rightarrow> nat \<Rightarrow> u8 list \<Rightarrow> (nat \<Rightarrow> u8)" where
  "copy_bytes d a 0 vs = d"
| "copy_bytes d a (Suc n) [] = d"
| "copy_bytes d a (Suc n) (v # vs) = copy_bytes (d(a := v)) (Suc a) n vs"

definition set_heap_4bytes :: "allocator \<Rightarrow> u32 \<Rightarrow> u8 list \<Rightarrow> allocator option" where
  "set_heap_4bytes fbha ptr val =
     (let a = ptr_offset fbha + ptr; b = ptr_offset fbha + ptr + 4 in
      if slice_ok (heap fbha) a b
      then Some (fbha\<lparr>heap := (heap fbha)\<lparr>mem_data :=
                   copy_bytes (mem_data (heap fbha)) (unat a) (unat (b - a)) val\<rparr>\<rparr>)
      else None)"

text \<open>
  \<^verbatim>\<open>binary.LittleEndian\<close> of Go's standard library: \<^verbatim>\<open>Uint32\<close> panics on a slice shorter than
  four bytes, \<^verbatim>\<open>PutUint32\<close> fills four bytes.
\<close>

definition le_uint32 :: "u8 list \<Rightarrow> u32 option" where
  "le_uint32 b =
     (if length b < 4 then None
      else Some (ucast (b ! 0) OR push_bit 8 (ucast (b ! 1))
                 OR push_bit 16 (ucast (b ! 2)) OR push_bit 24 (ucast (b ! 3))))"

definition le_put_uint32 :: "u32 \<Rightarrow> u8 list" where
  "le_put_uint32 v = [ucast v, ucast (drop_bit 8 v), ucast (drop_bit 16 v), ucast (drop_bit 24 v)]"

section \<open>Size classes\<close>

definition nextPowerOf2GT8 :: "u32 \<Rightarrow> u32" where
  "nextPowerOf2GT8 v =
     (if v < 8 then 8
      else let v = v - 1;
               v = v OR drop_bit 1 v;
               v = v OR drop_bit 2 v;
               v = v OR drop_bit 4 v;
               v = v OR drop_bit 8 v;
               v = v OR drop_bit 16 v
           in v + 1)"

text \<open>
  \<^verbatim>\<open>bits.TrailingZeros32\<close> of Go's standard library: the number of trailing zero bits,
  32 for the argument 0.
\<close>

primrec trailing_zeros :: "nat \<Rightarrow> u32 \<Rightarrow> nat" where
  "trailing_zeros 0 w = 0"
| "trailing_zeros (Suc n) w = (if bit w 0 then 0 else Suc (trailing_zeros n (drop_bit 1 w)))"

definition TrailingZeros32 :: "u32 \<Rightarrow> int" where
  "TrailingZeros32 w = int (trailing_zeros 32 w)"

definition get_item_size_from_index :: "u64 \<Rightarrow> u64" where
  "get_item_size_from_index index = push_bit (unat index) (push_bit 3 1)"

section \<open>Allocation\<close>

definition bump :: "allocator \<Rightarrow> u32 \<Rightarrow> u32 \<times> allocator" where
  "bump fbha n = (bumper fbha, fbha\<lparr>bumper := bumper fbha + n\<rparr>)"

text \<open>The loop \<^verbatim>\<open>for i := uint32(1); i <= 8; i++ { fbha.set_heap(ptr-i, 255) }\<close>.\<close>

function write_marker :: "allocator \<Rightarrow> u32 \<Rightarrow> u32 \<Rightarrow> (error + unit) \<times> allocator" where
  "write_marker fbha ptr i =
     (if i \<le> 8
      then (case set_heap fbha (ptr - i) 255 of
              None \<Rightarrow> (Inl RuntimePanic, fbha)
            | Some fbha' \<Rightarrow> write_marker fbha' ptr (i + 1))
      else (Inr (), fbha))"
  by pat_completeness auto
termination
proof (relation "measure (\<lambda>(fbha, ptr, i). 9 - unat i)")
  show "wf (measure (\<lambda>(fbha, ptr, i). 9 - unat i))" by simp
next
  fix fbha :: allocator and ptr i :: u32 and x2 :: allocator
  assume "i \<le> 8"
  then have "unat i \<le> 8" by (simp add: word_le_nat_alt)
  then have "unat (i + 1) = unat i + 1" by (simp add: unat_word_ariths)
  with \<open>unat i \<le> 8\<close> show "((x2, ptr, i + 1), fbha, ptr, i) \<in> measure (\<lambda>(fbha, ptr, i). 9 - unat i)"
    by simp
qed

declare write_marker.simps [simp del]

text \<open>
  The part of \<^verbatim>\<open>allocate\<close> after \<^verbatim>\<open>ptr\<close> is known (lines 89 to 96): the header, the
  running total and the returned pointer.
\<close>

definition write_header :: "allocator \<Rightarrow> u32 \<Rightarrow> int \<Rightarrow> u32 \<Rightarrow> (error + u32) \<times> allocator" where
  "write_header fbha ptr list_index item_size =
     (case write_marker fbha ptr 1 of
        (Inl e, fbha1) \<Rightarrow> (Inl e, fbha1)
      | (Inr _, fbha1) \<Rightarrow>
          (case set_heap fbha1 (ptr - 8) (word_of_int list_index) of
             None \<Rightarrow> (Inl RuntimePanic, fbha1)
           | Some fbha2 \<Rightarrow>
               (Inr (ptr_offset fbha2 + ptr),
                fbha2\<lparr>total_size := total_size fbha2 + item_size + 8\<rparr>)))"

definition allocate :: "allocator \<Rightarrow> u32 \<Rightarrow> (error + u32) \<times> allocator" where
  "allocate fbha sz =
     (if sz > MAX_POSSIBLE_ALLOCATION then (Inl SizeTooLarge, fbha)
      else
        let item_size = nextPowerOf2GT8 sz in
        if item_size + 8 + total_size fbha > max_heap_size fbha then (Inl OutOfSpace, fbha)
        else
          let list_index = TrailingZeros32 item_size - 3 in
          if list_index < 0 \<or> int N \<le> list_index then (Inl RuntimePanic, fbha)
          else if heads fbha (nat list_index) \<noteq> 0 then
            (let item = heads fbha (nat list_index) in
             case get_heap_4bytes fbha item of
               None \<Rightarrow> (Inl RuntimePanic, fbha)
             | Some four_bytes \<Rightarrow>
                 (case le_uint32 four_bytes of
                    None \<Rightarrow> (Inl RuntimePanic, fbha)
                  | Some link \<Rightarrow>
                      write_header (fbha\<lparr>heads := (heads fbha)(nat list_index := link)\<rparr>)
                        (item + 8) list_index item_size))
          else
            (case bump fbha (item_size + 8) of
               (res, fbha1) \<Rightarrow> write_header fbha1 (res + 8) list_index item_size))"

section \<open>Deallocation\<close>

definition deallocate :: "allocator \<Rightarrow> u32 \<Rightarrow> (error + unit) \<times> allocator" where
  "deallocate fbha pointer =
     (let ptr = pointer - ptr_offset fbha in
      if ptr < 8 then (Inl InvalidPointer, fbha)
      else
        (case get_heap_byte fbha (ptr - 8) of
          None \<Rightarrow> (Inl RuntimePanic, fbha)
        | Some list_index \<Rightarrow>
            if \<not> unat list_index < N then (Inl RuntimePanic, fbha)
            else
              let tail = heads fbha (unat list_index);
                  fbha1 = fbha\<lparr>heads := (heads fbha)(unat list_index := ptr - 8)\<rparr>;
                  bTail = le_put_uint32 tail
              in (case set_heap_4bytes fbha1 (ptr - 8) bTail of
                    None \<Rightarrow> (Inl RuntimePanic, fbha1)
                  | Some fbha2 \<Rightarrow>
                      (let item_size = get_item_size_from_index (ucast list_index)
                       in (Inr (), fbha2\<lparr>total_size := total_size fbha2 - ucast (item_size + 8)\<rparr>)))))"

section \<open>Median of the arrival times\<close>

text \<open>\<^verbatim>\<open>l[i]\<close> for an \<^verbatim>\<open>int\<close> index, with Go's bounds check.\<close>

definition slice_index :: "'a list \<Rightarrow> int \<Rightarrow> 'a option" where
  "slice_index l i = (if 0 \<le> i \<and> i < int (length l) then Some (l ! nat i) else None)"

text \<open>
  \<^verbatim>\<open>sort.Slice\<close> with \<^verbatim>\<open>l[i] < l[j]\<close> sorts the slice in place in ascending order; on
  \<^verbatim>\<open>uint64\<close> values the sorted slice is unique.
\<close>

definition median :: "u64 list \<Rightarrow> error + u64" where
  "median l0 =
     (let l = sort l0;
          m = int (length l)
      in if m = 0 then Inl EmptyArrivalTimes
         else if m mod 2 = 0 then
           (case slice_index l ((m div 2) - 1) of
              None \<Rightarrow> Inl RuntimePanic
            | Some a \<Rightarrow>
                (case slice_index l ((m div 2) + 1) of
                   None \<Rightarrow> Inl RuntimePanic
                 | Some b \<Rightarrow> Inr ((a + b) div 2)))
         else
           (case slice_index l (m div 2) of
              None \<Rightarrow> Inl RuntimePanic
            | Some a \<Rightarrow> Inr a))"

section \<open>Sequences of calls\<close>

text \<open>
  A caller that makes the calls of a list one after the other. A returned error leaves the
  caller running; a panic ends the sequence.
\<close>

datatype op = Allocate u32 | Deallocate u32

datatype reply = Pointer u32 | Freed | Failed error

fun step :: "allocator \<Rightarrow> op \<Rightarrow> reply \<times> allocator" where
  "step s (Allocate n) =
     (case allocate s n of (Inl e, s') \<Rightarrow> (Failed e, s') | (Inr p, s') \<Rightarrow> (Pointer p, s'))"
| "step s (Deallocate p) =
     (case deallocate s p of (Inl e, s') \<Rightarrow> (Failed e, s') | (Inr _, s') \<Rightarrow> (Freed, s'))"

fun run_ops :: "allocator \<Rightarrow> op list \<Rightarrow> reply list \<times> allocator" where
  "run_ops s [] = ([], s)"
| "run_ops s (x # xs) =
     (case step s x of
        (Failed RuntimePanic, s') \<Rightarrow> ([Failed RuntimePanic], s')
      | (r, s') \<Rightarrow> (case run_ops s' xs of (rs, s'') \<Rightarrow> (r # rs, s'')))"

text \<open>Memories of a given length whose bytes are all 0, or all 255.\<close>

definition zero_memory :: "u32 \<Rightarrow> memory" where
  "zero_memory n = \<lparr> mem_length = n, mem_data = (\<lambda>_. 0) \<rparr>"

definition ff_memory :: "u32 \<Rightarrow> memory" where
  "ff_memory n = \<lparr> mem_length = n, mem_data = (\<lambda>_. 255) \<rparr>"

section \<open>Notions used in the statements\<close>

text \<open>
  The bit smearing of \<^verbatim>\<open>nextPowerOf2GT8\<close> (lines 154 to 158), the size class of a request
  and the number of bytes a block of a class takes with its header.
\<close>

definition smear :: "u32 \<Rightarrow> u32" where
  "smear w = (let v = w; v = v OR drop_bit 1 v; v = v OR drop_bit 2 v; v = v OR drop_bit 4 v;
     v = v OR drop_bit 8 v; v = v OR drop_bit 16 v in v)"

definition class_of :: "u32 \<Rightarrow> nat" where
  "class_of n = nat (TrailingZeros32 (nextPowerOf2GT8 n) - 3)"

definition block_bytes :: "nat \<Rightarrow> nat" where
  "block_bytes c = 8 * 2 ^ c + 8"

text \<open>
  The bytes of the heap after the loop has written \<open>j\<close> markers below address \<open>a + 8\<close>,
  and after the whole header of a live block was written at \<open>a\<close>.
\<close>

definition fill :: "(nat \<Rightarrow> u8) \<Rightarrow> nat \<Rightarrow> nat \<Rightarrow> (nat \<Rightarrow> u8)" where
  "fill d a j = (\<lambda>x. if a + 8 - j \<le> x \<and> x < a + 8 then 255 else d x)"

definition header_bytes :: "(nat \<Rightarrow> u8) \<Rightarrow> nat \<Rightarrow> u8 \<Rightarrow> (nat \<Rightarrow> u8)" where
  "header_bytes d a c = (\<lambda>x. if a \<le> x \<and> x < a + 8 then (if x = a then c else 255) else d x)"

text \<open>
  The four bytes at an address, the link they hold when the block is free, and the bytes
  of the heap after a link was stored.
\<close>

definition bytes4 :: "(nat \<Rightarrow> u8) \<Rightarrow> nat \<Rightarrow> u8 list" where
  "bytes4 d a = [d a, d (a + 1), d (a + 2), d (a + 3)]"

definition link :: "(nat \<Rightarrow> u8) \<Rightarrow> nat \<Rightarrow> u32" where
  "link d a = ucast (d a) OR push_bit 8 (ucast (d (a + 1)))
                 OR push_bit 16 (ucast (d (a + 2))) OR push_bit 24 (ucast (d (a + 3)))"

definition put_link :: "(nat \<Rightarrow> u8) \<Rightarrow> nat \<Rightarrow> u32 \<Rightarrow> (nat \<Rightarrow> u8)" where
  "put_link d a v = d(a := ucast v, a + 1 := ucast (drop_bit 8 v), a + 2 := ucast (drop_bit 16 v),
      a + 3 := ucast (drop_bit 24 v))"

section \<open>Live allocations and the invariant of the allocator\<close>

text \<open>
  A caller that keeps the list of its live allocations, each a returned pointer with the
  size that was requested. It only makes calls that succeed, and only frees pointers of
  the list.
\<close>

definition live_bytes :: "(u32 \<times> u32) list \<Rightarrow> nat" where
  "live_bytes lv = (\<Sum>(p, n)\<leftarrow>lv. unat (nextPowerOf2GT8 n) + 8)"

fun run_live :: "allocator \<Rightarrow> (u32 \<times> u32) list \<Rightarrow> op list \<Rightarrow> (allocator \<times> (u32 \<times> u32) list) option" where
  "run_live s lv [] = Some (s, lv)"
| "run_live s lv (Allocate n # ops) =
     (case allocate s n of
        (Inr p, s') \<Rightarrow> run_live s' ((p, n) # lv) ops
      | (Inl e, s') \<Rightarrow> None)"
| "run_live s lv (Deallocate p # ops) =
     (if p \<in> fst ` set lv
      then (case deallocate s p of
              (Inr u, s') \<Rightarrow> run_live s' (filter (\<lambda>x. fst x \<noteq> p) lv) ops
            | (Inl e, s') \<Rightarrow> None)
      else None)"

text \<open>
  The list of a size class as it is stored in the heap: \<open>h\<close> is the head, each block holds
  the offset of the next in its first four bytes, and 0 ends the list.
\<close>

fun chain :: "(nat \<Rightarrow> u8) \<Rightarrow> nat \<Rightarrow> u32 \<Rightarrow> nat list \<Rightarrow> bool" where
  "chain d po h [] \<longleftrightarrow> h = 0"
| "chain d po h (b # bs) \<longleftrightarrow> h = of_nat b \<and> chain d po (link d (po + b)) bs"

text \<open>
  The invariant, over the live allocations \<open>lv\<close>, the blocks \<open>cv\<close> carved so far (offset
  and class) and the free list \<open>fl c\<close> of every class: no sum reaches \<open>2^32\<close>; the
  carved blocks lie below the cursor at offsets that are multiples of 8, with their
  headers inside the memory; a live pointer belongs to a carved block whose header holds
  its class; the blocks of a free list are carved blocks of that class, not at offset 0
  and not live, linked in the heap; the running total is the sum over the live
  allocations.
\<close>

definition carved_ok :: "nat \<Rightarrow> nat \<Rightarrow> nat \<Rightarrow> (nat \<times> nat) list \<Rightarrow> bool" where
  "carved_ok po B len cv \<longleftrightarrow>
     (\<forall>(b, c)\<in>set cv. c < 22 \<and> 8 dvd b \<and> b + block_bytes c \<le> B \<and> po + b + 8 \<le> len)
     \<and> distinct (map fst cv)
     \<and> (\<Sum>(b, c)\<leftarrow>cv. block_bytes c) \<le> B"

definition live_ok :: "nat \<Rightarrow> (nat \<Rightarrow> u8) \<Rightarrow> (nat \<times> nat) list \<Rightarrow> (u32 \<times> u32) list \<Rightarrow> bool" where
  "live_ok po d cv lv \<longleftrightarrow>
     (\<forall>(p, n)\<in>set lv. n \<le> MAX_POSSIBLE_ALLOCATION \<and> po + 8 \<le> unat p
        \<and> (unat p - po - 8, class_of n) \<in> set cv \<and> d (unat p - 8) = of_nat (class_of n))
     \<and> distinct (map fst lv)"

definition free_ok ::
  "nat \<Rightarrow> (nat \<Rightarrow> u8) \<Rightarrow> (nat \<Rightarrow> u32) \<Rightarrow> (nat \<times> nat) list \<Rightarrow> (u32 \<times> u32) list \<Rightarrow> (nat \<Rightarrow> nat list) \<Rightarrow> bool" where
  "free_ok po d hs cv lv fl \<longleftrightarrow>
     (\<forall>c<22. distinct (fl c)
        \<and> (\<forall>b\<in>set (fl c). b \<noteq> 0 \<and> (b, c) \<in> set cv \<and> po + b + 8 \<notin> unat ` fst ` set lv)
        \<and> chain d po (hs c) (fl c))"

definition alloc_inv :: "allocator \<Rightarrow> (u32 \<times> u32) list \<Rightarrow> (nat \<times> nat) list \<Rightarrow> (nat \<Rightarrow> nat list) \<Rightarrow> bool" where
  "alloc_inv s lv cv fl \<longleftrightarrow>
     unat (mem_length (heap s)) + 16777224 < 2 ^ 32
     \<and> unat (ptr_offset s) + unat (bumper s) + 8 \<le> 2 ^ 32
     \<and> unat (bumper s) + 8 < 2 ^ 32
     \<and> 8 dvd unat (bumper s)
     \<and> carved_ok (unat (ptr_offset s)) (unat (bumper s)) (unat (mem_length (heap s))) cv
     \<and> live_ok (unat (ptr_offset s)) (mem_data (heap s)) cv lv
     \<and> free_ok (unat (ptr_offset s)) (mem_data (heap s)) (heads s) cv lv fl
     \<and> unat (total_size s) = live_bytes lv"

section \<open>The bump cursor\<close>

text \<open>
  The bounds under which no sum of the cursor with the base offset or with a block wraps.
\<close>

definition cursor_ok :: "allocator \<Rightarrow> bool" where
  "cursor_ok s \<longleftrightarrow>
     unat (mem_length (heap s)) + 16777224 < 2 ^ 32
     \<and> unat (ptr_offset s) + unat (bumper s) + 8 \<le> 2 ^ 32
     \<and> unat (bumper s) + 8 < 2 ^ 32"

text \<open>
  A run of allocations that all take the bump path, from the cursor \<open>B\<close> and the running
  total \<open>T\<close> on \<open>L\<close> usable bytes: every header lies inside the memory and the total never
  passes \<open>L\<close>. \<open>taken\<close> is what the run adds to both.
\<close>

fun fits :: "nat \<Rightarrow> nat \<Rightarrow> nat \<Rightarrow> u32 list \<Rightarrow> bool" where
  "fits L B T [] \<longleftrightarrow> True"
| "fits L B T (n # ns) \<longleftrightarrow>
     n \<le> 16777216 \<and> B + 8 \<le> L \<and> T + (unat (nextPowerOf2GT8 n) + 8) \<le> L
     \<and> fits L (B + (unat (nextPowerOf2GT8 n) + 8)) (T + (unat (nextPowerOf2GT8 n) + 8)) ns"

definition taken :: "u32 list \<Rightarrow> nat" where
  "taken ns = (\<Sum>n\<leftarrow>ns. unat (nextPowerOf2GT8 n) + 8)"

text \<open>
  On a memory of \<open>2^32 - 65536\<close> bytes: the state after a first block of 16 MiB was
  allocated and freed, and 271 allocations whose blocks, with that first one, take
  exactly \<open>2^32\<close> bytes, followed by one more allocation.
\<close>

definition small_sizes :: "u32 list" where
  "small_sizes = [64, 64, 256, 512, 1024, 4096, 8192, 16384, 32768, 65536, 131072, 262144,
     524288, 1048576, 2097152, 4194304, 8388608]"

definition wrap_start :: allocator where
  "wrap_start = snd (deallocate (snd (allocate (newAllocator (zero_memory 4294901760) 0) 16777216)) 8)"

definition wrap_ops :: "op list" where
  "wrap_ops = map Allocate (small_sizes @ replicate 254 16777216) @ [Allocate 8]"

section \<open>Evaluation on concrete inputs\<close>

lemma trailing_zeros_pos:
  "0 < n \<Longrightarrow> trailing_zeros n w =
     (if bit w 0 then 0 else Suc (trailing_zeros (n - 1) (drop_bit 1 w)))"
  by (cases n) simp_all

lemma size_class_4: "nextPowerOf2GT8 4 = 8 \<and> TrailingZeros32 8 = 3"
  by (simp add: nextPowerOf2GT8_def TrailingZeros32_def trailing_zeros_pos)

lemma size_class_8: "nextPowerOf2GT8 8 = 8"
  by (simp add: nextPowerOf2GT8_def)

lemma size_class_16: "nextPowerOf2GT8 16 = 16 \<and> TrailingZeros32 16 = 4"
  by (simp add: nextPowerOf2GT8_def TrailingZeros32_def trailing_zeros_pos)

lemmas eval_defs = allocate_def deallocate_def newAllocator_def zero_memory_def
  MAX_POSSIBLE_ALLOCATION_def N_def ALIGNMENT_def bump_def write_header_def Let_def
  write_marker.simps set_heap_def index_ok_def slice_ok_def get_heap_byte_def
  get_heap_4bytes_def set_heap_4bytes_def le_uint32_def le_put_uint32_def
  get_item_size_from_index_def

section \<open>The constructor\<close>

text \<open>
  Claim C5. The constructor should round the base offset up to a multiple of 8 and take the
  usable size from the aligned offset. The code subtracts the offset it was given, before
  it aligns it: on a memory of 1024 bytes and the offset 1 the aligned offset is 8 and
  the usable size is 1023, not 1024 - 8 = 1016, so offset plus usable size passes the end
  of the memory.
\<close>

theorem newAllocator_unaligned_usable_size:
  "ptr_offset (newAllocator (zero_memory 1024) 1) = 8
   \<and> max_heap_size (newAllocator (zero_memory 1024) 1) = 1023
   \<and> mem_length (heap (newAllocator (zero_memory 1024) 1))
       - ptr_offset (newAllocator (zero_memory 1024) 1) = 1016"
  by (simp add: newAllocator_def zero_memory_def ALIGNMENT_def)

section \<open>The bump path\<close>

text \<open>
  Claim C1. A call on the bump path should fail with the out-of-space error when the
  cursor would pass the usable size. The code tests only the running total: on 32 usable
  bytes, after an 8-byte block was allocated and freed (the total is 0 again, the cursor
  is 16 and the list of 16-byte blocks is empty), \<open>allocate 16\<close> returns the pointer 24
  and moves the cursor to 40, so the block's payload 24..39 ends 8 bytes past the region.
\<close>

theorem bump_passes_usable_size:
  "fst (run_ops (newAllocator (zero_memory 32) 0) [Allocate 8, Deallocate 8, Allocate 16])
     = [Pointer 8, Freed, Pointer 24]
   \<and> heads (snd (run_ops (newAllocator (zero_memory 32) 0) [Allocate 8, Deallocate 8])) 1 = 0
   \<and> bumper (snd (run_ops (newAllocator (zero_memory 32) 0) [Allocate 8, Deallocate 8])) = 16
   \<and> bumper (snd (run_ops (newAllocator (zero_memory 32) 0)
                [Allocate 8, Deallocate 8, Allocate 16])) = 40
   \<and> max_heap_size (snd (run_ops (newAllocator (zero_memory 32) 0)
                [Allocate 8, Deallocate 8, Allocate 16])) = 32"
  by (simp add: eval_defs size_class_4 size_class_8 size_class_16)

section \<open>Reuse of a freed block\<close>

text \<open>
  Claim C2. After a pointer was freed, the next allocation of its size class should return
  it again without bumping. In the scenario of the specification (1024 usable bytes, base
  offset 0) the freed pointer is 8, whose block starts at offset 0; the head of the list
  becomes 0, which \<open>allocate\<close> reads as the empty list. The last call returns 40 and moves
  the cursor from 32 to 48.
\<close>

theorem freed_first_block_not_reused:
  "fst (run_ops (newAllocator (zero_memory 1024) 0)
          [Allocate 4, Allocate 4, Deallocate 8, Allocate 4])
     = [Pointer 8, Pointer 24, Freed, Pointer 40]
   \<and> bumper (snd (run_ops (newAllocator (zero_memory 1024) 0)
                [Allocate 4, Allocate 4, Deallocate 8])) = 32
   \<and> bumper (snd (run_ops (newAllocator (zero_memory 1024) 0)
                [Allocate 4, Allocate 4, Deallocate 8, Allocate 4])) = 48
   \<and> total_size (snd (run_ops (newAllocator (zero_memory 1024) 0)
                [Allocate 4, Allocate 4, Deallocate 8, Allocate 4])) = 32"
  by (simp add: eval_defs size_class_4)

section \<open>Pointers below the base offset\<close>

text \<open>
  Claim C3. A pointer below the base offset plus 8 should be refused with the
  invalid-pointer error and nothing should change. The subtraction
  \<open>pointer - ptr_offset\<close> wraps for a pointer below the base offset, so the test
  \<open>ptr < 8\<close> lets it through: with the base offset 16, \<open>deallocate 8\<close> succeeds, sets the
  head of list 0 to \<open>0xFFFFFFF0\<close> and takes 16 from the running total.
\<close>

theorem deallocate_below_base_offset:
  "ptr_offset (newAllocator (zero_memory 64) 16) = 16
   \<and> fst (deallocate (newAllocator (zero_memory 64) 16) 8) = Inr ()
   \<and> heads (snd (deallocate (newAllocator (zero_memory 64) 16) 8)) 0 = 0xFFFFFFF0
   \<and> total_size (snd (deallocate (newAllocator (zero_memory 64) 16) 8)) = 0xFFFFFFF0"
  by (simp add: eval_defs)

section \<open>Returned errors\<close>

lemma write_marker_result: "fst (write_marker fbha ptr i) = Inl e \<Longrightarrow> e = RuntimePanic"
  by (induction fbha ptr i rule: write_marker.induct)
     (subst (asm) write_marker.simps, auto split: if_splits option.splits)

lemma write_header_result: "fst (write_header fbha ptr li isz) = Inl e \<Longrightarrow> e = RuntimePanic"
  using write_marker_result [of fbha ptr 1]
  by (auto simp: write_header_def split: prod.splits sum.splits option.splits)

text \<open>
  Claim C6. A call that returns one of the three errors leaves the allocator, and with it
  every byte of the heap, as it was: each of them is returned before the first write.
  (A panic is not a returned error.)
\<close>

theorem returned_error_leaves_state:
  "(fst (allocate s n) = Inl SizeTooLarge \<or> fst (allocate s n) = Inl OutOfSpace
      \<longrightarrow> snd (allocate s n) = s)
   \<and> (fst (deallocate s p) = Inl InvalidPointer \<longrightarrow> snd (deallocate s p) = s)"
proof -
  have a: "snd (allocate s n) = s" if "fst (allocate s n) = Inl e" "e \<noteq> RuntimePanic" for e
    using that write_header_result
    by (fastforce simp: allocate_def Let_def bump_def split: if_splits option.splits prod.splits)
  have d: "snd (deallocate s p) = s" if "fst (deallocate s p) = Inl InvalidPointer"
    using that by (auto simp: deallocate_def Let_def split: if_splits option.splits)
  show ?thesis using a d by auto
qed

theorem returned_error_leaves_state_witness:
  "fst (allocate (newAllocator (zero_memory 64) 0) 16777217) = Inl SizeTooLarge
   \<and> snd (allocate (newAllocator (zero_memory 64) 0) 16777217) = newAllocator (zero_memory 64) 0
   \<and> fst (allocate (newAllocator (zero_memory 64) 0) 100) = Inl OutOfSpace
   \<and> snd (allocate (newAllocator (zero_memory 64) 0) 100) = newAllocator (zero_memory 64) 0
   \<and> fst (deallocate (newAllocator (zero_memory 64) 0) 3) = Inl InvalidPointer
   \<and> snd (deallocate (newAllocator (zero_memory 64) 0) 3) = newAllocator (zero_memory 64) 0"
proof -
  have 1: "fst (allocate (newAllocator (zero_memory 64) 0) 16777217) = Inl SizeTooLarge"
    by (simp add: allocate_def MAX_POSSIBLE_ALLOCATION_def)
  have "nextPowerOf2GT8 100 = 128" by (simp add: nextPowerOf2GT8_def)
  then have 2: "fst (allocate (newAllocator (zero_memory 64) 0) 100) = Inl OutOfSpace"
    by (simp add: allocate_def MAX_POSSIBLE_ALLOCATION_def newAllocator_def zero_memory_def
        ALIGNMENT_def)
  have 3: "fst (deallocate (newAllocator (zero_memory 64) 0) 3) = Inl InvalidPointer"
    by (simp add: deallocate_def newAllocator_def zero_memory_def ALIGNMENT_def)
  show ?thesis
    using 1 2 3 returned_error_leaves_state [of "newAllocator (zero_memory 64) 0" 16777217 3]
      returned_error_leaves_state [of "newAllocator (zero_memory 64) 0" 100 3]
    by simp
qed

section \<open>The size class read at deallocation\<close>

text \<open>
  Claim C4, as amended. \<open>deallocate\<close> does not validate the byte it reads from the header.
  When the byte is 22 or more, the index into the 22 heads is out of range and Go's
  bounds check panics, before anything is written; no error is returned.
\<close>

theorem deallocate_unchecked_size_class:
  assumes "\<not> pointer - ptr_offset s < 8"
    and "get_heap_byte s (pointer - ptr_offset s - 8) = Some b"
    and "22 \<le> unat b"
  shows "deallocate s pointer = (Inl RuntimePanic, s)"
  using assms by (simp add: deallocate_def Let_def N_def)

theorem deallocate_unchecked_size_class_witness:
  "\<not> (8::u32) - ptr_offset (newAllocator (ff_memory 64) 0) < 8
   \<and> get_heap_byte (newAllocator (ff_memory 64) 0)
        (8 - ptr_offset (newAllocator (ff_memory 64) 0) - 8) = Some 255
   \<and> 22 \<le> unat (255 :: u8)
   \<and> deallocate (newAllocator (ff_memory 64) 0) 8
        = (Inl RuntimePanic, newAllocator (ff_memory 64) 0)"
proof -
  have 1: "\<not> (8::u32) - ptr_offset (newAllocator (ff_memory 64) 0) < 8"
    by (simp add: newAllocator_def ff_memory_def ALIGNMENT_def)
  have 2: "get_heap_byte (newAllocator (ff_memory 64) 0)
             (8 - ptr_offset (newAllocator (ff_memory 64) 0) - 8) = Some 255"
    by (simp add: newAllocator_def ff_memory_def ALIGNMENT_def get_heap_byte_def index_ok_def)
  have 3: "22 \<le> unat (255 :: u8)" by simp
  show ?thesis using 1 2 3 deallocate_unchecked_size_class [OF 1 2 3] by simp
qed

text \<open>
  The claim as written fails: on a header byte of 255 the call ends in the
  index-out-of-range panic, not in a returned error.
\<close>

theorem deallocate_header_255_panics:
  "fst (deallocate (newAllocator (ff_memory 64) 0) 8) = Inl RuntimePanic"
  by (simp add: eval_defs ff_memory_def)

section \<open>The median\<close>

lemma slice_index_nat: "i < length l \<Longrightarrow> slice_index l (int i) = Some (l ! i)"
  by (simp add: slice_index_def)

text \<open>
  Claim C9, as amended. The empty list gives the error; a list of odd length \<open>m\<close> gives the
  element of the sorted list at index \<open>m div 2\<close>; a list of even length \<open>m\<close> of at least 4
  gives the sum of the sorted list's elements at \<open>m div 2 - 1\<close> and \<open>m div 2 + 1\<close>, added
  as \<^verbatim>\<open>uint64\<close> values (the sum wraps), divided by 2; a list of length 2 panics, since
  index 2 is out of range.
\<close>

theorem median_cases:
  "median [] = Inl EmptyArrivalTimes
   \<and> (odd (length l) \<longrightarrow> median l = Inr (sort l ! (length l div 2)))
   \<and> (even (length l) \<and> 4 \<le> length l \<longrightarrow>
        median l = Inr ((sort l ! (length l div 2 - 1) + sort l ! (length l div 2 + 1)) div 2))
   \<and> (length l = 2 \<longrightarrow> median l = Inl RuntimePanic)"
proof (intro conjI impI)
  show "median [] = Inl EmptyArrivalTimes" by (simp add: median_def)
next
  assume o: "odd (length l)"
  then have "length l div 2 < length (sort l)" by (cases "length l") auto
  then have "slice_index (sort l) (int (length l div 2)) = Some (sort l ! (length l div 2))"
    by (rule slice_index_nat)
  moreover have "int (length l) div 2 = int (length l div 2)" by (simp add: zdiv_int)
  moreover have "int (length l) mod 2 \<noteq> 0" using o by presburger
  moreover have "sort l \<noteq> []" using o by (auto dest!: arg_cong [where f = length])
  ultimately show "median l = Inr (sort l ! (length l div 2))"
    by (simp add: median_def Let_def)
next
  assume e: "even (length l) \<and> 4 \<le> length l"
  then have 1: "length l div 2 - 1 < length (sort l)" and 2: "length l div 2 + 1 < length (sort l)"
    by auto
  have a: "int (length l) div 2 - 1 = int (length l div 2 - 1)"
  proof -
    have "1 \<le> length l div 2" using e by auto
    then have "int (length l div 2 - 1) = int (length l div 2) - 1" by (simp add: of_nat_diff)
    then show ?thesis by (simp add: zdiv_int)
  qed
  have b: "int (length l) div 2 + 1 = int (length l div 2 + 1)"
    by (simp add: zdiv_int)
  have c: "int (length l) mod 2 = 0" using e by presburger
  have d: "sort l \<noteq> []" using e by (auto dest!: arg_cong [where f = length])
  show "median l = Inr ((sort l ! (length l div 2 - 1) + sort l ! (length l div 2 + 1)) div 2)"
    using slice_index_nat [OF 1] slice_index_nat [OF 2] c d
    by (simp add: median_def Let_def a b del: of_nat_diff of_nat_add)
next
  assume t: "length l = 2"
  then have "sort l \<noteq> []" by (auto dest!: arg_cong [where f = length])
  with t show "median l = Inl RuntimePanic"
    by (simp add: median_def Let_def slice_index_def)
qed

theorem median_cases_witness:
  "odd (length [5, 2, 3 :: u64]) \<and> median [5, 2, 3] = Inr 3
   \<and> even (length [9, 4, 3, 2 :: u64]) \<and> 4 \<le> length [9, 4, 3, 2 :: u64]
   \<and> median [9, 4, 3, 2] = Inr 6
   \<and> length [3, 2 :: u64] = 2 \<and> median [3, 2] = Inl RuntimePanic"
  using median_cases [of "[5, 2, 3]"] median_cases [of "[9, 4, 3, 2]"] median_cases [of "[3, 2]"]
  by simp

text \<open>
  The claim as written fails on a list of two elements, which has no element at index 2,
  and the value is not the average when the sum passes \<open>2^64\<close>.
\<close>

theorem median_two_elements_panics:
  "median [3, 2] = Inl RuntimePanic
   \<and> median [9223372036854775808, 9223372036854775808,
             9223372036854775808, 9223372036854775808] = Inr 0"
  by (simp add: median_def Let_def slice_index_def)

section \<open>Rounding to a power of two\<close>

lemma smear_step:
  fixes a w :: u32
  assumes "\<And>n. bit a n \<longleftrightarrow> (\<exists>j<m. bit w (n + j))"
  shows "bit (a OR drop_bit m a) n \<longleftrightarrow> (\<exists>j<2 * m. bit w (n + j))"
proof -
  have "bit (a OR drop_bit m a) n \<longleftrightarrow> (\<exists>j<m. bit w (n + j)) \<or> (\<exists>j<m. bit w (m + n + j))"
    by (simp add: bit_or_iff bit_drop_bit_eq assms)
  also have "\<dots> \<longleftrightarrow> (\<exists>j<2 * m. bit w (n + j))"
  proof
    assume "(\<exists>j<m. bit w (n + j)) \<or> (\<exists>j<m. bit w (m + n + j))"
    then show "\<exists>j<2 * m. bit w (n + j)"
    proof
      assume "\<exists>j<m. bit w (n + j)"
      then obtain j where "j < m" "bit w (n + j)" by blast
      then show ?thesis by (intro exI [of _ j]) simp
    next
      assume "\<exists>j<m. bit w (m + n + j)"
      then obtain j where "j < m" "bit w (m + n + j)" by blast
      then show ?thesis by (intro exI [of _ "m + j"]) (simp add: ac_simps)
    qed
  next
    assume "\<exists>j<2 * m. bit w (n + j)"
    then obtain j where j: "j < 2 * m" "bit w (n + j)" by blast
    show "(\<exists>j<m. bit w (n + j)) \<or> (\<exists>j<m. bit w (m + n + j))"
    proof (cases "j < m")
      case True
      with j show ?thesis by blast
    next
      case False
      then have "j - m < m" "m + n + (j - m) = n + j" using j by auto
      with j show ?thesis by metis
    qed
  qed
  finally show ?thesis .
qed

lemma bit_smear: "bit (smear w) n \<longleftrightarrow> (\<exists>j<32. bit w (n + j))"
proof -
  define v1 where "v1 = w OR drop_bit 1 w"
  define v2 where "v2 = v1 OR drop_bit 2 v1"
  define v3 where "v3 = v2 OR drop_bit 4 v2"
  define v4 where "v4 = v3 OR drop_bit 8 v3"
  define v5 where "v5 = v4 OR drop_bit 16 v4"
  have 0: "\<And>n. bit w n \<longleftrightarrow> (\<exists>j<1. bit w (n + j))" by simp
  have 1: "\<And>n. bit v1 n \<longleftrightarrow> (\<exists>j<2. bit w (n + j))"
    unfolding v1_def using smear_step [of w 1 w, OF 0] by simp
  have 2: "\<And>n. bit v2 n \<longleftrightarrow> (\<exists>j<4. bit w (n + j))"
    unfolding v2_def using smear_step [of v1 2 w, OF 1] by simp
  have 3: "\<And>n. bit v3 n \<longleftrightarrow> (\<exists>j<8. bit w (n + j))"
    unfolding v3_def using smear_step [of v2 4 w, OF 2] by simp
  have 4: "\<And>n. bit v4 n \<longleftrightarrow> (\<exists>j<16. bit w (n + j))"
    unfolding v4_def using smear_step [of v3 8 w, OF 3] by simp
  have 5: "\<And>n. bit v5 n \<longleftrightarrow> (\<exists>j<32. bit w (n + j))"
    unfolding v5_def using smear_step [of v4 16 w, OF 4] by simp
  have "smear w = v5"
    by (simp add: smear_def Let_def v1_def v2_def v3_def v4_def v5_def)
  with 5 show ?thesis by simp
qed

lemma highest_bit:
  fixes w :: u32
  assumes "w \<noteq> 0"
  shows "\<exists>k<32. bit w k \<and> (\<forall>i>k. \<not> bit w i)"
proof -
  let ?S = "{i. bit w i}"
  have fin: "finite ?S" 
  proof (rule finite_subset)
    show "?S \<subseteq> {..<32}" using bit_imp_le_length [of w] by auto
  qed simp
  have ne: "?S \<noteq> {}" using assms by (auto simp: bit_eq_iff)
  have m: "Max ?S \<in> ?S" using fin ne by (rule Max_in)
  have "\<forall>i>Max ?S. \<not> bit w i" using fin Max_ge [of ?S] by (metis mem_Collect_eq not_le)
  moreover have "Max ?S < 32" using m bit_imp_le_length [of w "Max ?S"] by simp
  ultimately show ?thesis using m by blast
qed

lemma smear_mask:
  fixes w :: u32
  assumes "k < 32" "bit w k" "\<forall>i>k. \<not> bit w i"
  shows "smear w = mask (Suc k)"
proof (rule bit_word_eqI)
  fix n assume "n < LENGTH(32)"
  have "(\<exists>j<32. bit w (n + j)) \<longleftrightarrow> n \<le> k"
  proof
    assume "\<exists>j<32. bit w (n + j)"
    then obtain j where "bit w (n + j)" by blast
    with assms(3) have "n + j \<le> k" by (meson not_le)
    then show "n \<le> k" by simp
  next
    assume "n \<le> k"
    then have "k - n < 32" "n + (k - n) = k" using assms(1) by auto
    with assms(2) show "\<exists>j<32. bit w (n + j)" by metis
  qed
  then show "bit (smear w) n \<longleftrightarrow> bit (mask (Suc k) :: u32) n"
    using \<open>n < LENGTH(32)\<close> by (simp add: bit_smear bit_mask_iff less_Suc_eq_le)
qed

lemma bit_bounds:
  fixes w :: u32
  assumes "k < 32" "bit w k" "\<forall>i>k. \<not> bit w i"
  shows "2 ^ k \<le> unat w \<and> unat w < 2 ^ Suc k"
proof
  have "bit (unat w) k" using assms by (simp add: bit_unsigned_iff)
  then have "odd (unat w div 2 ^ k)" by (simp add: bit_iff_odd)
  then show "2 ^ k \<le> unat w" by (cases "unat w < 2 ^ k") simp_all
  have "take_bit (Suc k) w = w"
    by (rule bit_word_eqI) (use assms(3) in \<open>auto simp: bit_take_bit_iff less_Suc_eq_le intro: leI\<close>)
  then show "unat w < 2 ^ Suc k"
    by (metis take_bit_nat_eq_self_iff unsigned_take_bit_eq)
qed

lemma trailing_zeros_power:
  "e < n \<Longrightarrow> n \<le> 32 \<Longrightarrow> trailing_zeros n (2 ^ e) = e"
proof (induction e arbitrary: n)
  case 0
  then show ?case by (cases n) simp_all
next
  case (Suc e)
  then obtain n' where n: "n = Suc n'" by (cases n) simp_all
  have "drop_bit 1 (2 ^ Suc e :: u32) = 2 ^ e"
    using Suc.prems unfolding drop_bit_exp_eq by simp
  moreover have "\<not> bit (2 ^ Suc e :: u32) 0" by (simp add: bit_0)
  ultimately show ?case using Suc n by simp
qed

lemma nextPowerOf2GT8_power:
  assumes "8 \<le> v" "v \<le> 16777216"
  shows "\<exists>e. 3 \<le> e \<and> e \<le> 24 \<and> nextPowerOf2GT8 v = 2 ^ e \<and> unat v \<le> 2 ^ e \<and> 2 ^ e < 2 * unat v"
proof -
  have v: "8 \<le> unat v" "unat v \<le> 16777216"
    using assms by (simp_all add: word_le_nat_alt)
  define w where "w = v - 1"
  have uw: "unat w = unat v - 1" unfolding w_def using v by (simp add: unat_sub word_le_nat_alt)
  then have "w \<noteq> 0" using v by (auto simp: unat_eq_0[symmetric] simp del: unat_eq_0)
  then obtain k where k: "k < 32" "bit w k" "\<forall>i>k. \<not> bit w i"
    using highest_bit by blast
  have b: "2 ^ k \<le> unat w" "unat w < 2 ^ Suc k" using bit_bounds [OF k] by simp_all
  have "(2::nat) ^ k < 2 ^ 24" using b(1) uw v by simp
  then have k24: "k < 24" using power_less_imp_less_exp [of "2::nat" k 24] by simp
  have "(2::nat) ^ 2 < 2 ^ Suc k" using b(2) uw v by simp
  then have k3: "3 \<le> Suc k" using power_less_imp_less_exp [of "2::nat" 2 "Suc k"] by simp
  have "nextPowerOf2GT8 v = smear w + 1"
    using assms by (simp add: nextPowerOf2GT8_def smear_def Let_def w_def not_less[symmetric])
  also have "\<dots> = 2 ^ Suc k"
    by (simp add: smear_mask [OF k] mask_eq_decr_exp)
  finally have r: "nextPowerOf2GT8 v = 2 ^ Suc k" .
  show ?thesis
    using r k24 k3 b uw v by (intro exI [of _ "Suc k"]) auto
qed

section \<open>Writing the header\<close>

lemma unat_of_nat32: "n < 2 ^ 32 \<Longrightarrow> unat (of_nat n :: u32) = n"
  by (simp add: unat_of_nat)

lemma unat_off_sub:
  fixes po ptr i :: u32
  assumes "unat i \<le> unat ptr" "unat po + unat ptr \<le> 2 ^ 32" "0 < unat i"
  shows "unat (po + (ptr - i)) = unat po + unat ptr - unat i"
proof -
  have "unat (ptr - i) = unat ptr - unat i"
    using assms(1) by (simp add: unat_sub word_le_nat_alt)
  moreover have "unat po + (unat ptr - unat i) < 2 ^ 32" using assms by simp
  ultimately show ?thesis using assms(1) by (simp add: unat_add_lem [THEN iffD1])
qed

lemma write_marker_from:
  assumes "8 \<le> unat ptr" "unat (ptr_offset f) + unat ptr \<le> 2 ^ 32"
    and "unat (ptr_offset f) + unat ptr \<le> unat (mem_length (heap f))"
    and "unat i = j + 1" "j \<le> 8" "m = 8 - j"
  shows "write_marker (f\<lparr>heap := (heap f)\<lparr>mem_data := fill (mem_data (heap f)) (unat (ptr_offset f) + unat ptr - 8) j\<rparr>\<rparr>)
            ptr i
         = (Inr (), f\<lparr>heap := (heap f)\<lparr>mem_data := fill (mem_data (heap f)) (unat (ptr_offset f) + unat ptr - 8) 8\<rparr>\<rparr>)"
  using assms(4,5,6)
proof (induction m arbitrary: i j)
  case 0
  then have "unat i = 9" by simp
  then have "\<not> i \<le> 8" by (simp add: word_le_nat_alt)
  moreover have "j = 8" using 0 by simp 
  ultimately show ?case by (subst write_marker.simps) simp
next
  case (Suc m)
  let ?A = "unat (ptr_offset f) + unat ptr - 8"
  let ?F = "\<lambda>k. f\<lparr>heap := (heap f)\<lparr>mem_data := fill (mem_data (heap f)) ?A k\<rparr>\<rparr>"
  from Suc.prems have j: "j < 8" by simp
  have ui: "unat i = j + 1" by fact
  then have le: "i \<le> 8" using j by (simp add: word_le_nat_alt)
  have a: "unat (ptr_offset f + (ptr - i)) = ?A + 7 - j"
    using unat_off_sub [of i ptr "ptr_offset f"] assms(1,2) ui j by simp
  then have ok: "ptr_offset f + (ptr - i) < mem_length (heap f)"
    using assms j by (simp add: word_less_nat_alt)
  have d: "(fill (mem_data (heap f)) ?A j)(?A + 7 - j := 255) = fill (mem_data (heap f)) ?A (j + 1)"
    using j by (auto simp: fill_def fun_eq_iff)
  have sh: "set_heap (?F j) (ptr - i) 255 = Some (?F (j + 1))"
    by (simp add: set_heap_def index_ok_def Let_def ok a d)
  have "unat (i + 1) = j + 1 + 1" using ui j by (simp add: unat_word_ariths)
  then have ih: "write_marker (?F (j + 1)) ptr (i + 1) = (Inr (), ?F 8)"
    using Suc.IH [of "i + 1" "j + 1"] Suc.prems j by simp
  show ?case
    by (subst write_marker.simps) (simp only: le if_True sh option.case ih)
qed

lemma write_marker_ok:
  assumes "8 \<le> unat ptr" "unat (ptr_offset f) + unat ptr \<le> 2 ^ 32"
    and "unat (ptr_offset f) + unat ptr \<le> unat (mem_length (heap f))"
  shows "write_marker f ptr 1 = (Inr (),
     f\<lparr>heap := (heap f)\<lparr>mem_data := fill (mem_data (heap f)) (unat (ptr_offset f) + unat ptr - 8) 8\<rparr>\<rparr>)"
proof -
  have "fill (mem_data (heap f)) (unat (ptr_offset f) + unat ptr - 8) 0 = mem_data (heap f)"
    by (auto simp: fill_def fun_eq_iff)
  then show ?thesis
    using write_marker_from [OF assms, of 1 0 8] by simp
qed

lemma write_marker_fail:
  assumes "8 \<le> unat ptr" "unat (ptr_offset f) + unat ptr \<le> 2 ^ 32"
    and "\<not> unat (ptr_offset f) + unat ptr \<le> unat (mem_length (heap f))"
  shows "fst (write_marker f ptr 1) = Inl RuntimePanic"
proof -
  have a: "unat (ptr_offset f + (ptr - 1)) = unat (ptr_offset f) + unat ptr - 1"
    using unat_off_sub [of 1 ptr "ptr_offset f"] assms by simp
  have "\<not> ptr_offset f + (ptr - 1) < mem_length (heap f)"
    using a assms by (simp add: word_less_nat_alt)
  then show ?thesis
    by (simp add: write_marker.simps [of _ _ 1] set_heap_def index_ok_def Let_def)
qed

lemma write_header_ok:
  assumes "8 \<le> unat ptr" "unat (ptr_offset f) + unat ptr \<le> 2 ^ 32"
    and "unat (ptr_offset f) + unat ptr \<le> unat (mem_length (heap f))"
  shows "write_header f ptr li isz = (Inr (ptr_offset f + ptr),
     f\<lparr>heap := (heap f)\<lparr>mem_data :=
          header_bytes (mem_data (heap f)) (unat (ptr_offset f) + unat ptr - 8) (word_of_int li)\<rparr>,
       total_size := total_size f + isz + 8\<rparr>)"
proof -
  let ?A = "unat (ptr_offset f) + unat ptr - 8"
  have a: "unat (ptr_offset f + (ptr - 8)) = ?A"
    using unat_off_sub [of 8 ptr "ptr_offset f"] assms by simp
  then have ok: "ptr_offset f + (ptr - 8) < mem_length (heap f)"
    using assms by (simp add: word_less_nat_alt)
  have d: "(fill (mem_data (heap f)) ?A 8)(?A := c) = header_bytes (mem_data (heap f)) ?A c" for c
    by (auto simp: fill_def header_bytes_def fun_eq_iff)
  show ?thesis
    by (simp add: write_header_def write_marker_ok [OF assms] set_heap_def index_ok_def Let_def ok a d)
qed

lemma write_header_fail:
  assumes "8 \<le> unat ptr" "unat (ptr_offset f) + unat ptr \<le> 2 ^ 32"
    and "\<not> unat (ptr_offset f) + unat ptr \<le> unat (mem_length (heap f))"
  shows "fst (write_header f ptr li isz) = Inl RuntimePanic"
  using write_marker_fail [OF assms]
  by (auto simp: write_header_def split: prod.splits sum.splits)

lemma unat_power32: "e < 32 \<Longrightarrow> unat (2 ^ e :: u32) = 2 ^ e"
proof -
  assume "e < 32"
  then have "(2::nat) ^ e < 2 ^ 32" by (simp only: power_strict_increasing_iff [of 2] one_less_numeral_iff semiring_norm)
  moreover have "(2 ^ e :: u32) = of_nat (2 ^ e)" by simp
  ultimately show ?thesis by (simp only: unat_of_nat32)
qed

lemma size_class:
  assumes "n \<le> MAX_POSSIBLE_ALLOCATION"
  shows "TrailingZeros32 (nextPowerOf2GT8 n) - 3 = int (class_of n)"
    and "class_of n < 22"
    and "unat (nextPowerOf2GT8 n) = 8 * 2 ^ class_of n"
proof -
  have "\<exists>e. 3 \<le> e \<and> e \<le> 24 \<and> nextPowerOf2GT8 n = 2 ^ e"
  proof (cases "n < 8")
    case True
    then have "nextPowerOf2GT8 n = 2 ^ 3" by (simp add: nextPowerOf2GT8_def)
    then show ?thesis by (intro exI [of _ 3]) simp
  next
    case False
    then show ?thesis
      using nextPowerOf2GT8_power [of n] assms by (auto simp: MAX_POSSIBLE_ALLOCATION_def not_less)
  qed
  then obtain e where e: "3 \<le> e" "e \<le> 24" "nextPowerOf2GT8 n = 2 ^ e" by blast
  have tz: "TrailingZeros32 (nextPowerOf2GT8 n) = int e"
    using e trailing_zeros_power [of e 32] by (simp add: TrailingZeros32_def)
  then have c: "class_of n = e - 3" using e by (simp add: class_of_def)
  show "TrailingZeros32 (nextPowerOf2GT8 n) - 3 = int (class_of n)"
    using tz c e by simp
  show "class_of n < 22" using c e by simp
  have "unat (2 ^ e :: u32) = 2 ^ e" using e by (simp add: unat_power32)
  moreover have "(2::nat) ^ e = 8 * 2 ^ (e - 3)"
  proof -
    have "(2::nat) ^ e = 2 ^ (3 + (e - 3))" using e by simp
    also have "\<dots> = 2 ^ 3 * 2 ^ (e - 3)" by (rule power_add)
    finally show ?thesis by simp
  qed
  ultimately show "unat (nextPowerOf2GT8 n) = 8 * 2 ^ class_of n"
    using e c by simp
qed

section \<open>The two paths of allocate\<close>

lemma allocate_Inr_checks:
  assumes "allocate s n = (Inr p, s')"
  shows "n \<le> MAX_POSSIBLE_ALLOCATION"
    and "nextPowerOf2GT8 n + 8 + total_size s \<le> max_heap_size s"
  using assms by (auto simp: allocate_def Let_def not_less split: if_splits)

lemma allocate_bump_path:
  assumes n: "n \<le> MAX_POSSIBLE_ALLOCATION"
    and chk: "nextPowerOf2GT8 n + 8 + total_size s \<le> max_heap_size s"
    and hd: "heads s (class_of n) = 0"
    and nw: "unat (ptr_offset s) + unat (bumper s) + 8 \<le> 2 ^ 32" "unat (bumper s) + 8 < 2 ^ 32"
  shows "allocate s n =
           write_header (s\<lparr>bumper := bumper s + (nextPowerOf2GT8 n + 8)\<rparr>) (bumper s + 8)
             (int (class_of n)) (nextPowerOf2GT8 n)"
  using n chk hd size_class [OF n]
  by (simp add: allocate_def Let_def not_less [symmetric] N_def bump_def)

lemma allocate_bump_ok:
  assumes n: "n \<le> MAX_POSSIBLE_ALLOCATION"
    and chk: "nextPowerOf2GT8 n + 8 + total_size s \<le> max_heap_size s"
    and hd: "heads s (class_of n) = 0"
    and nw: "unat (ptr_offset s) + unat (bumper s) + 8 \<le> 2 ^ 32" "unat (bumper s) + 8 < 2 ^ 32"
    and ok: "unat (ptr_offset s) + unat (bumper s) + 8 \<le> unat (mem_length (heap s))"
  shows "allocate s n = (Inr (ptr_offset s + (bumper s + 8)),
           s\<lparr>bumper := bumper s + (nextPowerOf2GT8 n + 8),
             heap := (heap s)\<lparr>mem_data := header_bytes (mem_data (heap s))
                 (unat (ptr_offset s) + unat (bumper s)) (of_nat (class_of n))\<rparr>,
             total_size := total_size s + nextPowerOf2GT8 n + 8\<rparr>)"
proof -
  have u: "unat (bumper s + 8) = unat (bumper s) + 8"
    using nw(2) by (simp add: unat_add_lem [THEN iffD1])
  show ?thesis
    using write_header_ok [of "bumper s + 8" "s\<lparr>bumper := bumper s + (nextPowerOf2GT8 n + 8)\<rparr>"
        "int (class_of n)" "nextPowerOf2GT8 n"] nw ok
    by (simp add: allocate_bump_path [OF n chk hd nw] u)
qed

lemma allocate_bump_fail:
  assumes n: "n \<le> MAX_POSSIBLE_ALLOCATION"
    and chk: "nextPowerOf2GT8 n + 8 + total_size s \<le> max_heap_size s"
    and hd: "heads s (class_of n) = 0"
    and nw: "unat (ptr_offset s) + unat (bumper s) + 8 \<le> 2 ^ 32" "unat (bumper s) + 8 < 2 ^ 32"
    and ok: "\<not> unat (ptr_offset s) + unat (bumper s) + 8 \<le> unat (mem_length (heap s))"
  shows "fst (allocate s n) = Inl RuntimePanic"
proof -
  have u: "unat (bumper s + 8) = unat (bumper s) + 8"
    using nw(2) by (simp add: unat_add_lem [THEN iffD1])
  show ?thesis
    using write_header_fail [of "bumper s + 8" "s\<lparr>bumper := bumper s + (nextPowerOf2GT8 n + 8)\<rparr>"
        "int (class_of n)" "nextPowerOf2GT8 n"] nw ok
    by (simp add: allocate_bump_path [OF n chk hd nw] u)
qed

lemma le_uint32_bytes4: "le_uint32 (bytes4 d a) = Some (link d a)"
  by (simp add: le_uint32_def link_def bytes4_def)

lemma upt_0_4: "[0..<4] = [0, 1, 2, 3]"
  by (simp add: upt_rec)

lemma allocate_free_ok:
  assumes n: "n \<le> MAX_POSSIBLE_ALLOCATION"
    and chk: "nextPowerOf2GT8 n + 8 + total_size s \<le> max_heap_size s"
    and hd: "heads s (class_of n) = of_nat b" "b \<noteq> 0"
    and ok: "unat (ptr_offset s) + b + 8 \<le> unat (mem_length (heap s))"
  shows "allocate s n = (Inr (ptr_offset s + (of_nat b + 8)),
           s\<lparr>heads := (heads s)(class_of n := link (mem_data (heap s)) (unat (ptr_offset s) + b)),
             heap := (heap s)\<lparr>mem_data := header_bytes (mem_data (heap s))
                 (unat (ptr_offset s) + b) (of_nat (class_of n))\<rparr>,
             total_size := total_size s + nextPowerOf2GT8 n + 8\<rparr>)"
proof -
  have lt: "unat (mem_length (heap s)) < 2 ^ 32" using unsigned_less [of "mem_length (heap s)"] by simp
  have b: "unat (of_nat b :: u32) = b" using ok lt by (simp add: unat_of_nat32)
  then have nz: "(of_nat b :: u32) \<noteq> 0" using hd(2) by (metis unat_0) 
  have u8: "unat (of_nat b + 8 :: u32) = b + 8"
    using b ok lt by (simp add: unat_add_lem [THEN iffD1])
  have a: "unat (ptr_offset s + of_nat b) = unat (ptr_offset s) + b"
    using b ok lt by (simp add: unat_add_lem [THEN iffD1])
  have a4: "unat (ptr_offset s + of_nat b + 4) = unat (ptr_offset s) + b + 4"
    using a ok lt by (simp add: unat_add_lem [THEN iffD1])
  have sl: "slice_ok (heap s) (ptr_offset s + of_nat b) (ptr_offset s + of_nat b + 4)"
    using a a4 ok by (simp add: slice_ok_def word_le_nat_alt)
  have g: "get_heap_4bytes s (of_nat b) = Some (bytes4 (mem_data (heap s)) (unat (ptr_offset s) + b))"
    using sl by (simp add: get_heap_4bytes_def Let_def a upt_0_4 bytes4_def)
  let ?s1 = "s\<lparr>heads := (heads s)(class_of n := link (mem_data (heap s)) (unat (ptr_offset s) + b))\<rparr>"
  have w: "write_header ?s1 (of_nat b + 8) (int (class_of n)) (nextPowerOf2GT8 n) =
     (Inr (ptr_offset s + (of_nat b + 8)),
      ?s1\<lparr>heap := (heap s)\<lparr>mem_data := header_bytes (mem_data (heap s))
                 (unat (ptr_offset s) + b) (of_nat (class_of n))\<rparr>,
             total_size := total_size s + nextPowerOf2GT8 n + 8\<rparr>)"
    using write_header_ok [of "of_nat b + 8" ?s1 "int (class_of n)" "nextPowerOf2GT8 n"] ok lt
    by (simp add: u8)
  show ?thesis
    using n chk hd nz size_class [OF n]
    by (simp add: allocate_def Let_def not_less [symmetric] N_def g le_uint32_bytes4 w)
qed

section \<open>A successful deallocate\<close>

lemma copy_bytes_4:
  "copy_bytes d a 4 [b0, b1, b2, b3] = d(a := b0, a + 1 := b1, a + 2 := b2, a + 3 := b3)"
  by (simp add: eval_nat_numeral)

lemma put_link_copy: "copy_bytes d a 4 (le_put_uint32 v) = put_link d a v"
  by (simp only: le_put_uint32_def copy_bytes_4 put_link_def)

lemma unat_lt32: "unat (w :: u32) < 4294967296"
  using unsigned_less [of w, where ?'a = nat] by simp

lemma block_bytes_bound: "c < 22 \<Longrightarrow> block_bytes c \<le> 16777224"
proof -
  assume "c < 22"
  then have "(2::nat) ^ c \<le> 2 ^ 21" by (intro power_increasing) simp_all
  then show ?thesis by (simp add: block_bytes_def)
qed

lemma item_size_u32:
  fixes c :: u8
  assumes "unat c < 22"
  shows "(ucast (get_item_size_from_index (ucast c) + 8) :: u32) = of_nat (block_bytes (unat c))"
proof -
  have "unat c < 2 ^ 64" using assms by simp
  then have "unat (ucast c :: u64) = unat c"
    by (simp add: unsigned_ucast_eq take_bit_nat_eq_self)
  then have "get_item_size_from_index (ucast c) + 8 = (of_nat (block_bytes (unat c)) :: u64)"
    by (simp add: get_item_size_from_index_def block_bytes_def push_bit_eq_mult)
  moreover have "(ucast (of_nat m :: u64) :: u32) = of_nat m" for m
    by (rule bit_word_eqI) (simp add: bit_simps)
  ultimately show ?thesis by simp
qed

lemma deallocate_ok:
  assumes lo: "unat (ptr_offset s) + 8 \<le> unat p"
    and hi: "unat p \<le> unat (mem_length (heap s))"
    and c: "mem_data (heap s) (unat p - 8) = c" "unat c < 22"
  shows "deallocate s p = (Inr (),
           s\<lparr>heads := (heads s)(unat c := p - ptr_offset s - 8),
             heap := (heap s)\<lparr>mem_data := put_link (mem_data (heap s)) (unat p - 8) (heads s (unat c))\<rparr>,
             total_size := total_size s - of_nat (block_bytes (unat c))\<rparr>)"
proof -
  have up: "unat (p - ptr_offset s) = unat p - unat (ptr_offset s)"
    using lo by (simp add: unat_sub word_le_nat_alt)
  then have ge: "\<not> p - ptr_offset s < 8" using lo by (simp add: word_less_nat_alt)
  have e: "ptr_offset s + (p - ptr_offset s - 8) = p - 8" by simp
  have u: "unat (p - 8) = unat p - 8" using lo by (simp add: unat_sub word_le_nat_alt)
  have io: "index_ok (heap s) (p - 8)" using u lo hi by (simp add: index_ok_def word_less_nat_alt)
  have g: "get_heap_byte s (p - ptr_offset s - 8) = Some c"
    using io c by (simp add: get_heap_byte_def Let_def e u)
  have u4: "unat (p - 4) = unat p - 4" using lo by (simp add: unat_sub word_le_nat_alt)
  have sl: "slice_ok (heap s) (p - 8) (p - 8 + 4)"
    using u u4 lo hi by (auto simp: slice_ok_def word_le_nat_alt)
  let ?s1 = "s\<lparr>heads := (heads s)(unat c := p - ptr_offset s - 8)\<rparr>"
  have sh: "set_heap_4bytes ?s1 (p - ptr_offset s - 8) (le_put_uint32 (heads s (unat c)))
     = Some (?s1\<lparr>heap := (heap s)\<lparr>mem_data := put_link (mem_data (heap s)) (unat p - 8) (heads s (unat c))\<rparr>\<rparr>)"
    using sl by (simp add: set_heap_4bytes_def Let_def e u put_link_copy)
  show ?thesis
    using ge g c(2) sh item_size_u32 [OF c(2)]
    by (simp add: deallocate_def Let_def N_def)
qed

section \<open>The size check and the size class\<close>

lemma set_heap_fields:
  "set_heap f q v = Some f' \<Longrightarrow>
     bumper f' = bumper f \<and> heads f' = heads f \<and> max_heap_size f' = max_heap_size f
     \<and> ptr_offset f' = ptr_offset f \<and> total_size f' = total_size f
     \<and> mem_length (heap f') = mem_length (heap f)"
  by (auto simp: set_heap_def Let_def split: if_splits)

lemma write_marker_fields:
  "write_marker f ptr i = (r, f') \<Longrightarrow>
     bumper f' = bumper f \<and> heads f' = heads f \<and> max_heap_size f' = max_heap_size f
     \<and> ptr_offset f' = ptr_offset f \<and> total_size f' = total_size f
     \<and> mem_length (heap f') = mem_length (heap f)"
proof (induction f ptr i arbitrary: r f' rule: write_marker.induct)
  case (1 fbha ptr i)
  show ?case
  proof (cases "i \<le> 8")
    case False
    with "1.prems" show ?thesis by (subst (asm) write_marker.simps) simp
  next
    case True
    show ?thesis
    proof (cases "set_heap fbha (ptr - i) 255")
      case None
      with True "1.prems" show ?thesis by (subst (asm) write_marker.simps) simp
    next
      case (Some g)
      with True "1.prems" have "write_marker g ptr (i + 1) = (r, f')"
        by (subst (asm) write_marker.simps) simp
      from "1.IH" [OF True Some this] set_heap_fields [OF Some] show ?thesis by simp
    qed
  qed
qed

lemma write_header_Inr:
  assumes "write_header f ptr li isz = (Inr p, f')"
  shows "p = ptr_offset f + ptr" and "total_size f' = total_size f + isz + 8"
    and "bumper f' = bumper f" and "heads f' = heads f" and "ptr_offset f' = ptr_offset f"
    and "max_heap_size f' = max_heap_size f" and "mem_length (heap f') = mem_length (heap f)"
    and "get_heap_byte f' (ptr - 8) = Some (word_of_int li)"
proof -
  obtain f1 where m: "write_marker f ptr 1 = (Inr (), f1)"
    using assms by (auto simp: write_header_def split: prod.splits sum.splits)
  then obtain f2 where s: "set_heap f1 (ptr - 8) (word_of_int li) = Some f2"
    and e: "p = ptr_offset f2 + ptr" "f' = f2\<lparr>total_size := total_size f2 + isz + 8\<rparr>"
    using assms by (auto simp: write_header_def split: option.splits)
  note a = write_marker_fields [OF m] and b = set_heap_fields [OF s]
  show "p = ptr_offset f + ptr" "total_size f' = total_size f + isz + 8"
    "bumper f' = bumper f" "heads f' = heads f" "ptr_offset f' = ptr_offset f"
    "max_heap_size f' = max_heap_size f" "mem_length (heap f') = mem_length (heap f)"
    using a b e by simp_all
  show "get_heap_byte f' (ptr - 8) = Some (word_of_int li)"
    using s e by (auto simp: set_heap_def get_heap_byte_def Let_def index_ok_def split: if_splits)
qed

lemma allocate_Inr_header:
  assumes "allocate s n = (Inr p, s')"
  shows "total_size s' = total_size s + nextPowerOf2GT8 n + 8"
    and "get_heap_byte s' (p - ptr_offset s' - 8)
           = Some (word_of_int (TrailingZeros32 (nextPowerOf2GT8 n) - 3))"
proof -
  let ?li = "TrailingZeros32 (nextPowerOf2GT8 n) - 3"
  from assms obtain f ptr where w: "write_header f ptr ?li (nextPowerOf2GT8 n) = (Inr p, s')"
    and t: "total_size f = total_size s"
    by (auto simp: allocate_def Let_def bump_def split: if_splits option.splits)
  from write_header_Inr [OF w] t
  show "total_size s' = total_size s + nextPowerOf2GT8 n + 8"
    and "get_heap_byte s' (p - ptr_offset s' - 8) = Some (word_of_int ?li)"
    by simp_all
qed

text \<open>
  Claim C8. \<open>allocate\<close> fails with the size error exactly when the size is above
  16777216. Otherwise the block size is 8 for a size below 8 and the least power of two
  that is at least the size from 8 on; the index \<open>TrailingZeros32 block_size - 3\<close> lies in
  \<open>0 .. 21\<close> and the block size is \<open>8 * 2 ^ index\<close>. A successful call adds this block size
  plus 8 to the running total and stores this index in the first byte of the header.
\<close>

theorem size_check_and_size_class:
  "(fst (allocate s n) = Inl SizeTooLarge \<longleftrightarrow> 16777216 < n)
   \<and> (n < 8 \<longrightarrow> nextPowerOf2GT8 n = 8)
   \<and> (8 \<le> n \<and> n \<le> 16777216 \<longrightarrow>
        (\<exists>e. unat (nextPowerOf2GT8 n) = 2 ^ e \<and> unat n \<le> 2 ^ e \<and> (\<forall>j. unat n \<le> 2 ^ j \<longrightarrow> e \<le> j)))
   \<and> (n \<le> 16777216 \<longrightarrow>
        0 \<le> TrailingZeros32 (nextPowerOf2GT8 n) - 3 \<and> TrailingZeros32 (nextPowerOf2GT8 n) - 3 < 22
        \<and> unat (nextPowerOf2GT8 n) = 8 * 2 ^ nat (TrailingZeros32 (nextPowerOf2GT8 n) - 3))
   \<and> (\<forall>p s'. allocate s n = (Inr p, s') \<longrightarrow>
        total_size s' = total_size s + nextPowerOf2GT8 n + 8
        \<and> get_heap_byte s' (p - ptr_offset s' - 8)
             = Some (word_of_int (TrailingZeros32 (nextPowerOf2GT8 n) - 3)))"
proof (intro conjI impI allI)
  show "fst (allocate s n) = Inl SizeTooLarge \<longleftrightarrow> 16777216 < n"
  proof
    assume a: "fst (allocate s n) = Inl SizeTooLarge"
    show "16777216 < n"
    proof (rule ccontr)
      assume "\<not> 16777216 < n"
      with a write_header_result show False
        by (fastforce simp: allocate_def Let_def bump_def MAX_POSSIBLE_ALLOCATION_def
            split: if_splits option.splits)
    qed
  next
    assume "16777216 < n"
    then show "fst (allocate s n) = Inl SizeTooLarge"
      by (simp add: allocate_def MAX_POSSIBLE_ALLOCATION_def)
  qed
next
  assume "n < 8"
  then show "nextPowerOf2GT8 n = 8" by (simp add: nextPowerOf2GT8_def)
next
  assume "8 \<le> n \<and> n \<le> 16777216"
  then obtain e where e: "e \<le> 24" "nextPowerOf2GT8 n = 2 ^ e" "unat n \<le> 2 ^ e" "2 ^ e < 2 * unat n"
    using nextPowerOf2GT8_power [of n] by blast
  have "e \<le> j" if "unat n \<le> 2 ^ j" for j
  proof -
    have "(2::nat) ^ e < 2 ^ Suc j" using e(4) that by simp
    then have "e < Suc j" by (rule power_less_imp_less_exp [rotated]) simp
    then show ?thesis by simp
  qed
  moreover have "unat (nextPowerOf2GT8 n) = 2 ^ e" using e by (simp add: unat_power32)
  ultimately show "\<exists>e. unat (nextPowerOf2GT8 n) = 2 ^ e \<and> unat n \<le> 2 ^ e \<and> (\<forall>j. unat n \<le> 2 ^ j \<longrightarrow> e \<le> j)"
    using e(3) by blast
next
  assume "n \<le> 16777216"
  then have n: "n \<le> MAX_POSSIBLE_ALLOCATION" by (simp add: MAX_POSSIBLE_ALLOCATION_def)
  from size_class [OF n]
  show "0 \<le> TrailingZeros32 (nextPowerOf2GT8 n) - 3"
    and "TrailingZeros32 (nextPowerOf2GT8 n) - 3 < 22"
    and "unat (nextPowerOf2GT8 n) = 8 * 2 ^ nat (TrailingZeros32 (nextPowerOf2GT8 n) - 3)"
    by simp_all
next
  fix p s' assume "allocate s n = (Inr p, s')"
  from allocate_Inr_header [OF this]
  show "total_size s' = total_size s + nextPowerOf2GT8 n + 8"
    and "get_heap_byte s' (p - ptr_offset s' - 8)
             = Some (word_of_int (TrailingZeros32 (nextPowerOf2GT8 n) - 3))"
    by simp_all
qed

theorem size_check_and_size_class_witness:
  "fst (allocate (newAllocator (zero_memory 64) 0) 16777217) = Inl SizeTooLarge
   \<and> (16777216 :: u32) < 16777217
   \<and> (4 :: u32) < 8 \<and> nextPowerOf2GT8 4 = 8
   \<and> (8 :: u32) \<le> 9 \<and> (9 :: u32) \<le> 16777216 \<and> unat (nextPowerOf2GT8 9) = 2 ^ 4
   \<and> TrailingZeros32 (nextPowerOf2GT8 9) - 3 = 1
   \<and> allocate (newAllocator (zero_memory 64) 0) 9
       = (Inr 8, snd (allocate (newAllocator (zero_memory 64) 0) 9))
   \<and> total_size (snd (allocate (newAllocator (zero_memory 64) 0) 9)) = 24
   \<and> get_heap_byte (snd (allocate (newAllocator (zero_memory 64) 0) 9)) 0 = Some 1"
proof -
  have np: "nextPowerOf2GT8 9 = 16" by (simp add: nextPowerOf2GT8_def)
  have a: "allocate (newAllocator (zero_memory 64) 0) 9
       = (Inr 8, snd (allocate (newAllocator (zero_memory 64) 0) 9))"
    by (simp add: eval_defs np size_class_16)
  have po: "ptr_offset (snd (allocate (newAllocator (zero_memory 64) 0) 9)) = 0"
    by (simp add: eval_defs np size_class_16)
  have t0: "total_size (newAllocator (zero_memory 64) 0) = 0"
    by (simp add: newAllocator_def)
  let ?S = "newAllocator (zero_memory 64) 0"
  note c = size_check_and_size_class [of ?S 9]
  from c have "\<forall>p s'. allocate ?S 9 = (Inr p, s') \<longrightarrow>
        total_size s' = total_size ?S + nextPowerOf2GT8 9 + 8
        \<and> get_heap_byte s' (p - ptr_offset s' - 8)
             = Some (word_of_int (TrailingZeros32 (nextPowerOf2GT8 9) - 3))"
    by (elim conjE)
  from this [rule_format, OF a]
  have h: "total_size (snd (allocate ?S 9)) = 24"
    "get_heap_byte (snd (allocate ?S 9)) 0 = Some 1"
    by (simp_all add: np size_class_16 po t0)
  show ?thesis
    using size_check_and_size_class [of ?S 16777217]
      size_check_and_size_class [of ?S 4] a h
    by (simp add: np size_class_16)
qed

section \<open>Frames: what a write to one header leaves alone\<close>

lemma header_bytes_outside: "x < a \<or> a + 8 \<le> x \<Longrightarrow> header_bytes d a c x = d x"
  by (auto simp: header_bytes_def)

lemma header_bytes_at: "header_bytes d a c a = c"
  by (simp add: header_bytes_def)

lemma put_link_outside: "x < a \<or> a + 4 \<le> x \<Longrightarrow> put_link d a v x = d x"
  by (auto simp: put_link_def)

lemma link_put_link: "link (put_link d a v) a = v"
proof (rule bit_word_eqI)
  fix n assume "n < LENGTH(32)"
  then consider "n < 8" | "8 \<le> n" "n < 16" | "16 \<le> n" "n < 24" | "24 \<le> n" "n < 32"
    by fastforce
  then show "bit (link (put_link d a v) a) n \<longleftrightarrow> bit v n"
    by cases (auto simp: link_def put_link_def bit_simps)
qed

lemma link_cong: "(\<And>k. k < 4 \<Longrightarrow> d' (a + k) = d (a + k)) \<Longrightarrow> link d' a = link d a"
proof -
  assume h: "\<And>k. k < 4 \<Longrightarrow> d' (a + k) = d (a + k)"
  from h [of 0] h [of 1] h [of 2] h [of 3] show ?thesis by (simp add: link_def)
qed

lemma chain_cong:
  "(\<And>b k. b \<in> set bs \<Longrightarrow> k < 4 \<Longrightarrow> d' (po + b + k) = d (po + b + k)) \<Longrightarrow>
   chain d' po h bs = chain d po h bs"
proof (induction bs arbitrary: h)
  case Nil
  show ?case by simp
next
  case (Cons b bs)
  have "link d' (po + b) = link d (po + b)"
    by (rule link_cong) (use Cons.prems [of b] in simp)
  moreover have "chain d' po h' bs = chain d po h' bs" for h'
    by (rule Cons.IH) (use Cons.prems in simp)
  ultimately show ?case by simp
qed

lemma apart: "8 dvd (b::nat) \<Longrightarrow> 8 dvd b' \<Longrightarrow> b \<noteq> b' \<Longrightarrow> b + 8 \<le> b' \<or> b' + 8 \<le> b"
  by (auto simp: dvd_def)

lemma carvedD:
  assumes "carved_ok po B len cv" "(b, c) \<in> set cv"
  shows "c < 22" "8 dvd b" "b + block_bytes c \<le> B" "po + b + 8 \<le> len"
  using assms by (auto simp: carved_ok_def)

lemma carved_class_unique:
  assumes "carved_ok po B len cv" "(b, c) \<in> set cv" "(b, c') \<in> set cv"
  shows "c = c'"
proof -
  have "distinct (map fst cv)" using assms(1) by (simp add: carved_ok_def)
  then show ?thesis using assms(2,3) by (meson eq_key_imp_eq_value)
qed

lemma liveD:
  assumes "live_ok po d cv lv" "(p, n) \<in> set lv"
  shows "n \<le> MAX_POSSIBLE_ALLOCATION" "po + 8 \<le> unat p"
    "(unat p - po - 8, class_of n) \<in> set cv" "d (unat p - 8) = of_nat (class_of n)"
  using assms by (auto simp: live_ok_def)

lemma freeD:
  assumes "free_ok po d hs cv lv fl" "c < 22"
  shows "distinct (fl c)" "chain d po (hs c) (fl c)"
    "\<And>b. b \<in> set (fl c) \<Longrightarrow> b \<noteq> 0 \<and> (b, c) \<in> set cv \<and> po + b + 8 \<notin> unat ` fst ` set lv"
  using assms by (auto simp: free_ok_def)

lemma live_frame:
  assumes l: "live_ok po d cv lv" and cv: "carved_ok po B len cv"
    and out: "\<And>x. x < po + b0 \<or> po + b0 + 8 \<le> x \<Longrightarrow> d' x = d x"
    and b0: "8 dvd b0"
    and ne: "\<And>p n. (p, n) \<in> set lv \<Longrightarrow> unat p - po - 8 \<noteq> b0"
  shows "live_ok po d' cv lv"
proof -
  have "d' (unat p - 8) = of_nat (class_of n)" if "(p, n) \<in> set lv" for p n
  proof -
    let ?b = "unat p - po - 8"
    note f = liveD [OF l that]
    have "8 dvd ?b" using carvedD(2) [OF cv f(3)] .
    with b0 ne [OF that] have "?b + 8 \<le> b0 \<or> b0 + 8 \<le> ?b" by (intro apart)
    moreover have "unat p - 8 = po + ?b" using f(2) by simp
    ultimately have "unat p - 8 < po + b0 \<or> po + b0 + 8 \<le> unat p - 8" by linarith
    from out [OF this] f(4) show ?thesis by simp
  qed
  then show ?thesis using l by (auto simp: live_ok_def)
qed

lemma free_frame:
  assumes f: "free_ok po d hs cv lv fl" and cv: "carved_ok po B len cv"
    and out: "\<And>x. x < po + b0 \<or> po + b0 + 8 \<le> x \<Longrightarrow> d' x = d x"
    and b0: "8 dvd b0"
    and ne: "\<And>c. c < 22 \<Longrightarrow> b0 \<notin> set (fl c)"
  shows "free_ok po d' hs cv lv fl"
proof -
  have "chain d' po (hs c) (fl c)" if c: "c < 22" for c
  proof -
    have "chain d' po (hs c) (fl c) = chain d po (hs c) (fl c)"
    proof (rule chain_cong)
      fix b k assume b: "b \<in> set (fl c)" and k: "k < (4::nat)"
      have "(b, c) \<in> set cv" using freeD(3) [OF f c b] by simp
      then have "8 dvd b" by (rule carvedD(2) [OF cv])
      moreover have "b \<noteq> b0" using ne [OF c] b by auto
      ultimately have "b + 8 \<le> b0 \<or> b0 + 8 \<le> b" using b0 by (intro apart)
      then have "po + b + k < po + b0 \<or> po + b0 + 8 \<le> po + b + k" using k by linarith
      then show "d' (po + b + k) = d (po + b + k)" by (rule out)
    qed
    then show ?thesis using freeD(2) [OF f c] by simp
  qed
  then show ?thesis using f by (auto simp: free_ok_def)
qed

lemma sum_list_distinct_set:
  "distinct xs \<Longrightarrow> sum_list (map f xs) = sum f (set xs)"
  by (simp add: sum_list_distinct_conv_sum_set)

lemma live_bytes_le:
  assumes l: "live_ok po d cv lv" and cv: "carved_ok po B len cv"
  shows "live_bytes lv \<le> B"
proof -
  let ?g = "\<lambda>(p::u32, n::u32). (unat p - po - 8, class_of n)"
  let ?w = "\<lambda>(b::nat, c::nat). block_bytes c"
  have dl: "distinct (map fst lv)" using l by (simp add: live_ok_def)
  then have dlv: "distinct lv" by (rule distinct_map [THEN iffD1, THEN conjunct1])
  have dcv: "distinct cv" using cv unfolding carved_ok_def
    by (meson distinct_map)
  have inj: "inj_on ?g (set lv)"
  proof (rule inj_onI)
    fix x y assume x: "x \<in> set lv" and y: "y \<in> set lv" and e: "?g x = ?g y"
    obtain p n where xp: "x = (p, n)" by (cases x)
    obtain q m where yq: "y = (q, m)" by (cases y)
    have "po + 8 \<le> unat p" "po + 8 \<le> unat q"
      using liveD(2) [OF l] x y xp yq by auto
    moreover have "unat p - po - 8 = unat q - po - 8" using e xp yq by simp
    ultimately have "unat p = unat q" by linarith
    then have "p = q" by (rule unsigned_word_eqI)
    then have "fst x = fst y" using xp yq by simp
    with dl x y show "x = y" by (meson distinct_map inj_onD)
  qed
  have sub: "?g ` set lv \<subseteq> set cv"
    using liveD(3) [OF l] by auto
  have w: "unat (nextPowerOf2GT8 n) + 8 = ?w (?g (p, n))" if "(p, n) \<in> set lv" for p n
    using size_class(3) [OF liveD(1) [OF l that]] by (simp add: block_bytes_def)
  have "live_bytes lv = sum (\<lambda>(p, n). unat (nextPowerOf2GT8 n) + 8) (set lv)"
    unfolding live_bytes_def using dlv by (rule sum_list_distinct_set)
  also have "\<dots> = sum (\<lambda>x. ?w (?g x)) (set lv)"
    by (rule sum.cong) (use w in auto)
  also have "\<dots> = sum ?w (?g ` set lv)"
    using inj by (simp add: sum.reindex)
  also have "\<dots> \<le> sum ?w (set cv)"
    by (rule sum_mono2) (use sub in auto)
  also have "\<dots> = (\<Sum>(b, c)\<leftarrow>cv. block_bytes c)"
    using dcv by (simp add: sum_list_distinct_set)
  also have "\<dots> \<le> B" using cv by (simp add: carved_ok_def)
  finally show ?thesis .
qed

section \<open>The invariant is kept by allocate\<close>

lemma block_bytes_pos: "0 < block_bytes c"
  by (simp add: block_bytes_def)

lemma carved_below:
  assumes "carved_ok po B len cv" "(b, c) \<in> set cv"
  shows "b < B"
  using carvedD(3) [OF assms] block_bytes_pos [of c] by linarith

lemma live_below:
  assumes "live_ok po d cv lv" "carved_ok po B len cv" "(q, m) \<in> set lv"
  shows "unat q - po - 8 < B" "unat q < po + B + 8"
proof -
  show "unat q - po - 8 < B" using carved_below [OF assms(2) liveD(3) [OF assms(1,3)]] .
  then show "unat q < po + B + 8" using liveD(2) [OF assms(1,3)] by linarith
qed

lemma live_mono:
  assumes "live_ok po d cv lv" "set cv \<subseteq> set cv'"
  shows "live_ok po d cv' lv"
  using assms unfolding live_ok_def by fast

lemma free_mono:
  assumes "free_ok po d hs cv lv fl" "set cv \<subseteq> set cv'"
  shows "free_ok po d hs cv' lv fl"
  using assms unfolding free_ok_def by fast

lemma live_add:
  assumes "live_ok po d cv lv"
    and "n \<le> MAX_POSSIBLE_ALLOCATION" "po + 8 \<le> unat p"
    and "(unat p - po - 8, class_of n) \<in> set cv" "d (unat p - 8) = of_nat (class_of n)"
    and "p \<notin> fst ` set lv"
  shows "live_ok po d cv ((p, n) # lv)"
  using assms unfolding live_ok_def by auto

lemma free_add:
  assumes "free_ok po d hs cv lv fl"
    and "\<And>c b. c < 22 \<Longrightarrow> b \<in> set (fl c) \<Longrightarrow> po + b + 8 \<noteq> unat p"
  shows "free_ok po d hs cv ((p, n) # lv) fl"
  using assms unfolding free_ok_def by auto

text \<open>The three parts of the invariant when a block is carved by the bump cursor.\<close>

lemma carved_bump:
  assumes cv: "carved_ok po B len cv" and c: "c < 22" and B: "8 dvd B" and ok: "po + B + 8 \<le> len"
  shows "carved_ok po (B + block_bytes c) len ((B, c) # cv)"
proof -
  have "B \<notin> fst ` set cv" using carved_below [OF cv] by fastforce
  moreover have "\<forall>(b, c')\<in>set cv. b + block_bytes c' \<le> B + block_bytes c"
    using carvedD(3) [OF cv] by fastforce
  ultimately show ?thesis
    using cv c B ok unfolding carved_ok_def by auto
qed

lemma live_bump:
  assumes l: "live_ok po d cv lv" and cv: "carved_ok po B len cv"
    and c: "class_of n = c" "n \<le> MAX_POSSIBLE_ALLOCATION" and B: "8 dvd B"
    and p: "unat p = po + B + 8"
  shows "live_ok po (header_bytes d (po + B) (of_nat c)) ((B, c) # cv) ((p, n) # lv)"
proof -
  let ?d = "header_bytes d (po + B) (of_nat c)"
  have "live_ok po ?d cv lv"
  proof (rule live_frame [OF l cv _ B])
    show "\<And>x. x < po + B \<or> po + B + 8 \<le> x \<Longrightarrow> ?d x = d x" by (rule header_bytes_outside)
    show "\<And>p n. (p, n) \<in> set lv \<Longrightarrow> unat p - po - 8 \<noteq> B"
      using live_below(1) [OF l cv] by fastforce
  qed
  then have 1: "live_ok po ?d ((B, c) # cv) lv" by (rule live_mono) auto
  have "p \<notin> fst ` set lv" using live_below(2) [OF l cv] p by fastforce
  moreover have "?d (unat p - 8) = of_nat (class_of n)"
    using p c by (simp add: header_bytes_at)
  ultimately show ?thesis
    using c p by (intro live_add [OF 1]) simp_all
qed

lemma free_bump:
  assumes f: "free_ok po d hs cv lv fl" and cv: "carved_ok po B len cv"
    and B: "8 dvd B" and p: "unat p = po + B + 8"
  shows "free_ok po (header_bytes d (po + B) v) hs ((B, c) # cv) ((p, n) # lv) fl"
proof -
  let ?d = "header_bytes d (po + B) v"
  have lt: "b < B" if "c' < 22" "b \<in> set (fl c')" for c' b
    using carved_below [OF cv] freeD(3) [OF f that] by blast
  have "free_ok po ?d hs cv lv fl"
  proof (rule free_frame [OF f cv _ B])
    show "\<And>x. x < po + B \<or> po + B + 8 \<le> x \<Longrightarrow> ?d x = d x" by (rule header_bytes_outside)
    show "\<And>c. c < 22 \<Longrightarrow> B \<notin> set (fl c)" using lt by fastforce
  qed
  then have "free_ok po ?d hs ((B, c) # cv) lv fl" by (rule free_mono) auto
  then show ?thesis
    by (rule free_add) (use lt p in fastforce)
qed

text \<open>The same when the head of a free list is taken.\<close>

lemma free_other_class:
  assumes f: "free_ok po d hs cv lv fl" and cv: "carved_ok po B len cv"
    and c: "c < 22" "c' < 22" and b: "b \<in> set (fl c)" "b \<in> set (fl c')"
  shows "c = c'"
  using carved_class_unique [OF cv] freeD(3) [OF f c(1) b(1)] freeD(3) [OF f c(2) b(2)] by blast

lemma live_reuse:
  assumes l: "live_ok po d cv lv" and cv: "carved_ok po B len cv"
    and f: "free_ok po d hs cv lv fl"
    and c: "class_of n = c" "n \<le> MAX_POSSIBLE_ALLOCATION" "c < 22" and fl: "fl c = b # bs"
    and p: "unat p = po + b + 8"
  shows "live_ok po (header_bytes d (po + b) (of_nat c)) cv ((p, n) # lv)"
proof -
  let ?d = "header_bytes d (po + b) (of_nat c)"
  have b: "b \<noteq> 0" "(b, c) \<in> set cv" "po + b + 8 \<notin> unat ` fst ` set lv"
    using freeD(3) [OF f c(3), of b] fl by simp_all
  have 1: "live_ok po ?d cv lv"
  proof (rule live_frame [OF l cv _ carvedD(2) [OF cv b(2)]])
    show "\<And>x. x < po + b \<or> po + b + 8 \<le> x \<Longrightarrow> ?d x = d x" by (rule header_bytes_outside)
    show "unat q - po - 8 \<noteq> b" if "(q, m) \<in> set lv" for q m
    proof
      assume "unat q - po - 8 = b"
      then have "unat q = po + b + 8" using liveD(2) [OF l that] by linarith
      then have "po + b + 8 \<in> unat ` fst ` set lv" using that by force
      with b(3) show False by simp
    qed
  qed
  have "p \<notin> fst ` set lv" using b(3) p by force
  moreover have "?d (unat p - 8) = of_nat (class_of n)"
    using p c by (simp add: header_bytes_at)
  ultimately show ?thesis
    using c p b(2) by (intro live_add [OF 1]) simp_all
qed

lemma free_reuse:
  assumes f: "free_ok po d hs cv lv fl" and cv: "carved_ok po B len cv"
    and c: "c < 22" and fl: "fl c = b # bs" and p: "unat p = po + b + 8"
  shows "free_ok po (header_bytes d (po + b) v) (hs(c := link d (po + b))) cv ((p, n) # lv)
           (fl(c := bs))"
proof -
  let ?d = "header_bytes d (po + b) v"
  let ?hs = "hs(c := link d (po + b))"
  let ?fl = "fl(c := bs)"
  have b: "(b, c) \<in> set cv" using freeD(3) [OF f c, of b] fl by simp
  have dc: "distinct (b # bs)" "chain d po (hs c) (b # bs)"
    using freeD(1,2) [OF f c] fl by simp_all
  have sub: "set (?fl c') \<subseteq> set (fl c')" for c' using fl by auto
  have nb: "b \<notin> set (?fl c')" if "c' < 22" for c'
  proof (cases "c' = c")
    case True
    then show ?thesis using dc(1) by simp
  next
    case False
    then show ?thesis
      using free_other_class [OF f cv c that, of b] fl by auto
  qed
  have 0: "free_ok po d ?hs cv lv ?fl"
  proof -
    have "distinct (?fl c') \<and> (\<forall>b'\<in>set (?fl c'). b' \<noteq> 0 \<and> (b', c') \<in> set cv
              \<and> po + b' + 8 \<notin> unat ` fst ` set lv) \<and> chain d po (?hs c') (?fl c')"
      if c': "c' < 22" for c' :: nat
    proof (intro conjI ballI)
      show "distinct (?fl c')" using freeD(1) [OF f c'] dc(1) by simp
      show "chain d po (?hs c') (?fl c')" using freeD(2) [OF f c'] dc(2) by simp
    next
      fix b' assume "b' \<in> set (?fl c')"
      then have "b' \<in> set (fl c')" using sub by blast
      from freeD(3) [OF f c' this]
      show "b' \<noteq> 0" "(b', c') \<in> set cv" "po + b' + 8 \<notin> unat ` fst ` set lv" by simp_all
    qed
    then show ?thesis unfolding free_ok_def by blast
  qed
  have "free_ok po ?d ?hs cv lv ?fl"
  proof (rule free_frame [OF 0 cv _ carvedD(2) [OF cv b]])
    show "\<And>x. x < po + b \<or> po + b + 8 \<le> x \<Longrightarrow> ?d x = d x" by (rule header_bytes_outside)
    show "\<And>c. c < 22 \<Longrightarrow> b \<notin> set (?fl c)" by (rule nb)
  qed
  then show ?thesis
    by (rule free_add) (use nb p in fastforce)
qed

lemma unat_add32: "unat a + unat b < 2 ^ 32 \<Longrightarrow> unat (a + b :: u32) = unat a + unat b"
  by (simp add: unat_add_lem [THEN iffD1])

lemma inv_allocate:
  assumes i: "alloc_inv s lv cv fl" and a: "allocate s n = (Inr p, s')"
  shows "\<exists>cv' fl'. alloc_inv s' ((p, n) # lv) cv' fl'"
proof -
  let ?po = "unat (ptr_offset s)" and ?B = "unat (bumper s)"
  let ?len = "unat (mem_length (heap s))" and ?d = "mem_data (heap s)"
  let ?c = "class_of n"
  note n = allocate_Inr_checks [OF a]
  note sc = size_class [OF n(1)]
  have bb: "unat (nextPowerOf2GT8 n) + 8 = block_bytes ?c" using sc(3) by (simp add: block_bytes_def)
  have bbw: "unat (nextPowerOf2GT8 n + 8) = block_bytes ?c"
    using bb block_bytes_bound [OF sc(2)] by (simp add: unat_add32)
  from i have len: "?len + 16777224 < 2 ^ 32"
    and nw: "?po + ?B + 8 \<le> 2 ^ 32" "?B + 8 < 2 ^ 32" and B8: "8 dvd ?B"
    and cv: "carved_ok ?po ?B ?len cv" and l: "live_ok ?po ?d cv lv"
    and f: "free_ok ?po ?d (heads s) cv lv fl" and t: "unat (total_size s) = live_bytes lv"
    by (simp_all add: alloc_inv_def)
  have tot: "unat (total_size s + nextPowerOf2GT8 n + 8) = live_bytes ((p, n) # lv)"
    if "live_bytes ((p, n) # lv) < 2 ^ 32"
  proof -
    have e: "live_bytes ((p, n) # lv) = unat (total_size s) + (unat (nextPowerOf2GT8 n) + 8)"
      using t by (simp add: live_bytes_def)
    have "unat (total_size s) + unat (nextPowerOf2GT8 n + 8) < 2 ^ 32"
      using that e bb bbw by simp
    then have "unat (total_size s + (nextPowerOf2GT8 n + 8)) = unat (total_size s) + block_bytes ?c"
      using bbw by (simp add: unat_add32)
    then show ?thesis using e bb by (simp add: add.assoc)
  qed
  show ?thesis
  proof (cases "fl ?c")
    case Nil
    then have hd: "heads s ?c = 0" using freeD(2) [OF f sc(2)] by simp
    have ok: "?po + ?B + 8 \<le> ?len"
    proof (rule ccontr)
      assume "\<not> ?po + ?B + 8 \<le> ?len"
      from allocate_bump_fail [OF n hd nw this] a show False by simp
    qed
    note r = allocate_bump_ok [OF n hd nw ok]
    let ?s' = "s\<lparr>bumper := bumper s + (nextPowerOf2GT8 n + 8),
             heap := (heap s)\<lparr>mem_data := header_bytes ?d (?po + ?B) (of_nat ?c)\<rparr>,
             total_size := total_size s + nextPowerOf2GT8 n + 8\<rparr>"
    have p: "p = ptr_offset s + (bumper s + 8)" and s': "s' = ?s'" using r a by simp_all
    have "unat (bumper s + 8) = ?B + 8" using nw(2) by (simp add: unat_add32)
    then have up: "unat p = ?po + ?B + 8"
      unfolding p using ok len by (simp add: unat_add32)
    have uB: "unat (bumper s + (nextPowerOf2GT8 n + 8)) = ?B + block_bytes ?c"
      using bbw ok len block_bytes_bound [OF sc(2)] by (simp add: unat_add32)
    have cv': "carved_ok ?po (?B + block_bytes ?c) ?len ((?B, ?c) # cv)"
      by (rule carved_bump [OF cv sc(2) B8 ok])
    have l': "live_ok ?po (header_bytes ?d (?po + ?B) (of_nat ?c)) ((?B, ?c) # cv) ((p, n) # lv)"
      by (rule live_bump [OF l cv refl n(1) B8 up])
    have f': "free_ok ?po (header_bytes ?d (?po + ?B) (of_nat ?c)) (heads s) ((?B, ?c) # cv)
        ((p, n) # lv) fl"
      by (rule free_bump [OF f cv B8 up])
    have "live_bytes ((p, n) # lv) \<le> ?B + block_bytes ?c" by (rule live_bytes_le [OF l' cv'])
    moreover have lim: "?B + block_bytes ?c + ?po + 8 < 2 ^ 32"
      using ok len block_bytes_bound [OF sc(2)] by simp
    ultimately have t': "unat (total_size s + nextPowerOf2GT8 n + 8) = live_bytes ((p, n) # lv)"
      by (intro tot) simp
    have "8 dvd block_bytes ?c" by (simp add: block_bytes_def)
    then have B8': "8 dvd ?B + block_bytes ?c" using B8 by (rule dvd_add [rotated])
    have "alloc_inv ?s' ((p, n) # lv) ((?B, ?c) # cv) fl"
      unfolding alloc_inv_def using len lim B8' cv' l' f' t' by (simp add: uB)
    then show ?thesis unfolding s' by blast
  next
    case (Cons b bs)
    have hd: "heads s ?c = of_nat b" using freeD(2) [OF f sc(2)] Cons by simp
    have b: "b \<noteq> 0" "(b, ?c) \<in> set cv" using freeD(3) [OF f sc(2), of b] Cons by simp_all
    have ok: "?po + b + 8 \<le> ?len" by (rule carvedD(4) [OF cv b(2)])
    note r = allocate_free_ok [OF n hd b(1) ok]
    let ?s' = "s\<lparr>heads := (heads s)(?c := link ?d (?po + b)),
             heap := (heap s)\<lparr>mem_data := header_bytes ?d (?po + b) (of_nat ?c)\<rparr>,
             total_size := total_size s + nextPowerOf2GT8 n + 8\<rparr>"
    have p: "p = ptr_offset s + (of_nat b + 8)" and s': "s' = ?s'" using r a by simp_all
    have "unat (of_nat b :: u32) = b" using ok len by (simp add: unat_of_nat32)
    then have "unat (of_nat b + 8 :: u32) = b + 8" using ok len by (simp add: unat_add32)
    then have up: "unat p = ?po + b + 8"
      unfolding p using ok len by (simp add: unat_add32)
    have l': "live_ok ?po (header_bytes ?d (?po + b) (of_nat ?c)) cv ((p, n) # lv)"
      by (rule live_reuse [OF l cv f refl n(1) sc(2) Cons up])
    have f': "free_ok ?po (header_bytes ?d (?po + b) (of_nat ?c)) ((heads s)(?c := link ?d (?po + b)))
        cv ((p, n) # lv) (fl(?c := bs))"
      by (rule free_reuse [OF f cv sc(2) Cons up])
    have "live_bytes ((p, n) # lv) \<le> ?B" by (rule live_bytes_le [OF l' cv])
    then have t': "unat (total_size s + nextPowerOf2GT8 n + 8) = live_bytes ((p, n) # lv)"
      using nw(2) by (intro tot) simp
    have "alloc_inv ?s' ((p, n) # lv) cv (fl(?c := bs))"
      unfolding alloc_inv_def using len nw B8 cv l' f' t' by simp
    then show ?thesis unfolding s' by blast
  qed
qed

section \<open>The invariant is kept by deallocate\<close>

lemma live_filter:
  assumes "live_ok po d cv lv"
  shows "live_ok po d cv (filter (\<lambda>x. fst x \<noteq> p) lv)"
  using assms unfolding live_ok_def by (auto simp: distinct_map_filter)

lemma free_sub:
  assumes "free_ok po d hs cv lv fl" "set lv' \<subseteq> set lv"
  shows "free_ok po d hs cv lv' fl"
  using assms unfolding free_ok_def by (meson image_mono subsetD)

lemma live_offset_inj:
  assumes l: "live_ok po d cv lv" and x: "(p, n) \<in> set lv" "(q, m) \<in> set lv"
    and e: "unat q - po - 8 = unat p - po - 8"
  shows "q = p"
proof -
  have "unat q = unat p" using liveD(2) [OF l x(1)] liveD(2) [OF l x(2)] e by linarith
  then show ?thesis by (rule unsigned_word_eqI)
qed

lemma live_dealloc:
  assumes l: "live_ok po d cv lv" and cv: "carved_ok po B len cv"
    and x: "(p, n) \<in> set lv"
  shows "live_ok po (put_link d (unat p - 8) v) cv (filter (\<lambda>x. fst x \<noteq> p) lv)"
proof -
  let ?b = "unat p - po - 8"
  let ?lv = "filter (\<lambda>x. fst x \<noteq> p) lv"
  have a: "unat p - 8 = po + ?b" using liveD(2) [OF l x] by simp
  show ?thesis unfolding a
  proof (rule live_frame [OF live_filter [OF l] cv _ carvedD(2) [OF cv liveD(3) [OF l x]]])
    show "\<And>x. x < po + ?b \<or> po + ?b + 8 \<le> x \<Longrightarrow> put_link d (po + ?b) v x = d x"
      by (rule put_link_outside) linarith
    show "unat q - po - 8 \<noteq> ?b" if "(q, m) \<in> set ?lv" for q m
      using live_offset_inj [OF l x, of q m] that by auto
  qed
qed

lemma free_dealloc:
  assumes l: "live_ok po d cv lv" and cv: "carved_ok po B len cv"
    and f: "free_ok po d hs cv lv fl"
    and x: "(p, n) \<in> set lv" and c: "class_of n = c"
  shows "free_ok po (put_link d (unat p - 8) (hs c)) (hs(c := of_nat (unat p - po - 8))) cv
           (filter (\<lambda>x. fst x \<noteq> p) lv)
           (fl(c := if unat p - po - 8 = 0 then [] else (unat p - po - 8) # fl c))"
proof -
  let ?b = "unat p - po - 8"
  let ?lv = "filter (\<lambda>x. fst x \<noteq> p) lv"
  let ?d = "put_link d (po + ?b) (hs c)"
  let ?hs = "hs(c := of_nat ?b)"
  let ?fl = "fl(c := if ?b = 0 then [] else ?b # fl c)"
  note lx = liveD [OF l x]
  have c22: "c < 22" using size_class(2) [OF lx(1)] c by simp
  have bc: "(?b, c) \<in> set cv" using lx(3) c by simp
  have a: "unat p - 8 = po + ?b" "unat p = po + ?b + 8" using lx(2) by simp_all
  have nb: "?b \<notin> set (fl c')" if "c' < 22" for c'
  proof
    assume "?b \<in> set (fl c')"
    from freeD(3) [OF f that this] have "unat p \<notin> unat ` fst ` set lv" using a(2) by simp
    then show False using x by force
  qed
  have 1: "free_ok po ?d hs cv lv fl"
  proof (rule free_frame [OF f cv _ carvedD(2) [OF cv bc]])
    show "\<And>x. x < po + ?b \<or> po + ?b + 8 \<le> x \<Longrightarrow> ?d x = d x"
      by (rule put_link_outside) linarith
    show "\<And>c. c < 22 \<Longrightarrow> ?b \<notin> set (fl c)" by (rule nb)
  qed
  then have 2: "free_ok po ?d hs cv ?lv fl" by (rule free_sub) auto
  have gone: "po + ?b + 8 \<notin> unat ` fst ` set ?lv"
  proof
    assume "po + ?b + 8 \<in> unat ` fst ` set ?lv"
    then obtain q m where q: "(q, m) \<in> set lv" "q \<noteq> p" "unat q = po + ?b + 8" by force
    then have "unat q = unat p" using a(2) by simp
    then have "q = p" by (rule unsigned_word_eqI)
    with q(2) show False by simp
  qed
  have "distinct (?fl c') \<and> (\<forall>b'\<in>set (?fl c'). b' \<noteq> 0 \<and> (b', c') \<in> set cv
              \<and> po + b' + 8 \<notin> unat ` fst ` set ?lv) \<and> chain ?d po (?hs c') (?fl c')"
    if c': "c' < 22" for c' :: nat
  proof (cases "c' = c")
    case False
    then show ?thesis using freeD [OF 2 c'] by simp
  next
    case True
    show ?thesis
    proof (cases "?b = 0")
      case b0: True
      then show ?thesis using True by simp
    next
      case b0: False
      have "chain ?d po (of_nat ?b) (?b # fl c)"
        using freeD(2) [OF 2 c22] by (simp add: link_put_link)
      moreover have "distinct (?b # fl c)" using freeD(1) [OF 2 c22] nb [OF c22] by simp
      ultimately show ?thesis
        using True b0 bc gone freeD(3) [OF 2 c22] by simp
    qed
  qed
  then have "free_ok po ?d ?hs cv ?lv ?fl" unfolding free_ok_def by blast
  then show ?thesis unfolding a(1) .
qed

lemma live_bytes_filter:
  assumes "distinct (map fst lv)" "(p, n) \<in> set lv"
  shows "live_bytes (filter (\<lambda>x. fst x \<noteq> p) lv) + (unat (nextPowerOf2GT8 n) + 8) = live_bytes lv"
  using assms
proof (induction lv)
  case Nil
  then show ?case by simp
next
  case (Cons x lv)
  obtain q m where x: "x = (q, m)" by (cases x)
  show ?case
  proof (cases "q = p")
    case True
    then have "m = n" using Cons.prems x by (auto simp: image_iff)
    moreover have "filter (\<lambda>x. fst x \<noteq> p) lv = lv"
      using Cons.prems x True by (auto simp: filter_id_conv image_iff)
    ultimately show ?thesis using x True by (simp add: live_bytes_def)
  next
    case False
    then have "(p, n) \<in> set lv" using Cons.prems x by auto
    then show ?thesis using Cons x False by (simp add: live_bytes_def)
  qed
qed

lemma inv_deallocate:
  assumes i: "alloc_inv s lv cv fl" and x: "p \<in> fst ` set lv"
  shows "\<exists>s' cv' fl'. deallocate s p = (Inr (), s') \<and> alloc_inv s' (filter (\<lambda>x. fst x \<noteq> p) lv) cv' fl'"
proof -
  let ?po = "unat (ptr_offset s)" and ?B = "unat (bumper s)"
  let ?len = "unat (mem_length (heap s))" and ?d = "mem_data (heap s)"
  let ?lv = "filter (\<lambda>x. fst x \<noteq> p) lv"
  from x obtain n where pn: "(p, n) \<in> set lv" by auto
  let ?c = "class_of n"
  let ?b = "unat p - ?po - 8"
  from i have len: "?len + 16777224 < 2 ^ 32"
    and nw: "?po + ?B + 8 \<le> 2 ^ 32" "?B + 8 < 2 ^ 32" and B8: "8 dvd ?B"
    and cv: "carved_ok ?po ?B ?len cv" and l: "live_ok ?po ?d cv lv"
    and f: "free_ok ?po ?d (heads s) cv lv fl" and t: "unat (total_size s) = live_bytes lv"
    by (simp_all add: alloc_inv_def)
  note lx = liveD [OF l pn]
  note sc = size_class [OF lx(1)]
  have bb: "unat (nextPowerOf2GT8 n) + 8 = block_bytes ?c" using sc(3) by (simp add: block_bytes_def)
  have hi: "unat p \<le> ?len" using carvedD(4) [OF cv lx(3)] lx(2) by linarith
  have uc: "unat (of_nat ?c :: u8) = ?c" using sc(2) by (simp add: unat_of_nat)
  then have c22: "unat (of_nat ?c :: u8) < 22" using sc(2) by simp
  note r = deallocate_ok [OF lx(2) hi lx(4) c22]
  have "unat (p - ptr_offset s) = unat p - ?po" using lx(2) by (simp add: unat_sub word_le_nat_alt)
  then have "unat (p - ptr_offset s - 8) = ?b" using lx(2) by (simp add: unat_sub word_le_nat_alt)
  then have "of_nat ?b = (of_nat (unat (p - ptr_offset s - 8)) :: u32)" by simp
  then have pb: "p - ptr_offset s - 8 = of_nat ?b" by simp
  let ?s' = "s\<lparr>heads := (heads s)(?c := of_nat ?b),
             heap := (heap s)\<lparr>mem_data := put_link ?d (unat p - 8) (heads s ?c)\<rparr>,
             total_size := total_size s - of_nat (block_bytes ?c)\<rparr>"
  have s': "deallocate s p = (Inr (), ?s')" using r by (simp add: uc pb)
  have l': "live_ok ?po (put_link ?d (unat p - 8) (heads s ?c)) cv ?lv"
    by (rule live_dealloc [OF l cv pn])
  have f': "free_ok ?po (put_link ?d (unat p - 8) (heads s ?c)) ((heads s)(?c := of_nat ?b)) cv ?lv
           (fl(?c := if ?b = 0 then [] else ?b # fl ?c))"
    by (rule free_dealloc [OF l cv f pn refl])
  have dl: "distinct (map fst lv)" using l by (simp add: live_ok_def)
  have e: "live_bytes ?lv + block_bytes ?c = live_bytes lv"
    using live_bytes_filter [OF dl pn] bb by simp
  have "unat (of_nat (block_bytes ?c) :: u32) = block_bytes ?c"
    using block_bytes_bound [OF sc(2)] by (simp add: unat_of_nat32)
  moreover have "block_bytes ?c \<le> unat (total_size s)" using e t by simp
  ultimately have "unat (total_size s - of_nat (block_bytes ?c)) = unat (total_size s) - block_bytes ?c"
    by (simp add: unat_sub word_le_nat_alt)
  then have t': "unat (total_size s - of_nat (block_bytes ?c)) = live_bytes ?lv" using e t by simp
  have "alloc_inv ?s' ?lv cv (fl(?c := if ?b = 0 then [] else ?b # fl ?c))"
    unfolding alloc_inv_def using len nw B8 cv l' f' t' by simp
  with s' show ?thesis by blast
qed

lemma aligned_offset:
  fixes offs :: u32
  shows "8 dvd unat (if offs mod 8 \<noteq> 0 then offs + (8 - offs mod 8) else offs)"
proof (cases "offs mod 8 = 0")
  case True
  then have "unat (offs mod 8) = 0" by simp
  then have "unat offs mod 8 = 0" by (simp add: unat_mod)
  then show ?thesis using True by (simp add: dvd_eq_mod_eq_0)
next
  case False
  have m: "unat (offs mod 8) = unat offs mod 8" by (simp add: unat_mod)
  then have lt: "unat (offs mod 8) < 8" by simp
  then have le: "offs mod 8 \<le> 8" by (simp add: word_le_nat_alt)
  have s: "unat (8 - offs mod 8) = 8 - unat offs mod 8"
    using le m by (simp add: unat_sub)
  have "unat (offs + (8 - offs mod 8)) = (unat offs + (8 - unat offs mod 8)) mod 2 ^ 32"
    using s by (simp add: unat_word_ariths)
  moreover have "8 dvd unat offs + (8 - unat offs mod 8)"
    by presburger
  moreover have "(8::nat) dvd 2 ^ 32" by simp
  ultimately have "8 dvd unat (offs + (8 - offs mod 8))"
    by (simp add: dvd_mod)
  then show ?thesis using False by simp
qed

lemma inv_fresh:
  assumes "unat (mem_length mem) + 16777224 < 2 ^ 32"
  shows "alloc_inv (newAllocator mem offs) [] [] (\<lambda>_. [])"
proof -
  let ?o = "if offs mod 8 \<noteq> 0 then offs + (8 - offs mod 8) else offs"
  have "8 dvd unat ?o" by (rule aligned_offset)
  then obtain k where k: "unat ?o = 8 * k" by (auto simp: dvd_def)
  have "unat ?o < 2 ^ 32" using unat_lt32 [of ?o] by simp
  then have "k < 536870912" using k by simp
  then have "unat ?o + 8 \<le> 2 ^ 32" using k by simp
  then show ?thesis
    using assms
    by (auto simp: alloc_inv_def newAllocator_def ALIGNMENT_def Let_def carved_ok_def live_ok_def
        free_ok_def live_bytes_def split: if_splits)
qed

lemma run_live_inv:
  assumes "alloc_inv s lv cv fl" "run_live s lv ops = Some (s', lv')"
  shows "\<exists>cv' fl'. alloc_inv s' lv' cv' fl'"
  using assms
proof (induction ops arbitrary: s lv cv fl)
  case Nil
  then show ?case by auto
next
  case (Cons x ops)
  show ?case
  proof (cases x)
    case (Allocate n)
    with Cons.prems(2) obtain p s1 where a: "allocate s n = (Inr p, s1)"
      and r: "run_live s1 ((p, n) # lv) ops = Some (s', lv')"
      by (auto split: prod.splits sum.splits)
    from inv_allocate [OF Cons.prems(1) a] obtain cv1 fl1 where "alloc_inv s1 ((p, n) # lv) cv1 fl1"
      by blast
    from Cons.IH [OF this r] show ?thesis .
  next
    case (Deallocate p)
    with Cons.prems(2) have x: "p \<in> fst ` set lv"
      by (auto split: if_splits)
    from inv_deallocate [OF Cons.prems(1) x] obtain s1 cv1 fl1
      where d: "deallocate s p = (Inr (), s1)" and i: "alloc_inv s1 (filter (\<lambda>x. fst x \<noteq> p) lv) cv1 fl1"
      by blast
    from Cons.prems(2) Deallocate x d have "run_live s1 (filter (\<lambda>x. fst x \<noteq> p) lv) ops = Some (s', lv')"
      by simp
    from Cons.IH [OF i this] show ?thesis .
  qed
qed

section \<open>The running total\<close>

lemma deallocate_Inr_total:
  assumes "deallocate s p = (Inr (), s')"
  shows "\<exists>idx. get_heap_byte s (p - ptr_offset s - 8) = Some idx \<and> unat idx < 22
           \<and> total_size s' = total_size s - of_nat (8 * 2 ^ unat idx + 8)"
proof -
  from assms obtain idx where g: "get_heap_byte s (p - ptr_offset s - 8) = Some idx"
    and i: "unat idx < 22"
    and t: "total_size s' = total_size s - ucast (get_item_size_from_index (ucast idx) + 8)"
    by (auto simp: deallocate_def Let_def N_def set_heap_4bytes_def split: if_splits option.splits)
  from t item_size_u32 [OF i] have "total_size s' = total_size s - of_nat (8 * 2 ^ unat idx + 8)"
    by (simp add: block_bytes_def)
  with g i show ?thesis by blast
qed

text \<open>
  Claim C7, as amended. Take an allocator made by \<open>newAllocator\<close> on a memory of less than
  \<open>2^32 - 2^24 - 8\<close> bytes, and any sequence of successful calls in which \<open>deallocate\<close> is
  only given live pointers. Then the running total is the sum, over the live allocations,
  of the block size of the requested size plus 8, and it is 0 when nothing is live. Each
  successful \<open>allocate\<close> adds the block size plus 8, each successful \<open>deallocate\<close> takes
  \<open>8 * 2 ^ index + 8\<close> for the index in the header, both in \<^verbatim>\<open>uint32\<close> arithmetic.
\<close>

theorem bytes_in_use_invariant:
  assumes "unat (mem_length mem) + 16777224 < 2 ^ 32"
    and "run_live (newAllocator mem offs) [] ops = Some (s, lv)"
  shows "unat (total_size s) = live_bytes lv \<and> (lv = [] \<longrightarrow> total_size s = 0)
    \<and> (\<forall>t n p t'. allocate t n = (Inr p, t') \<longrightarrow> total_size t' = total_size t + nextPowerOf2GT8 n + 8)
    \<and> (\<forall>t p t'. deallocate t p = (Inr (), t') \<longrightarrow>
          (\<exists>idx. get_heap_byte t (p - ptr_offset t - 8) = Some idx
             \<and> total_size t' = total_size t - of_nat (8 * 2 ^ unat idx + 8)))"
proof -
  from run_live_inv [OF inv_fresh [OF assms(1)] assms(2)]
  obtain cv fl where "alloc_inv s lv cv fl" by blast
  then have t: "unat (total_size s) = live_bytes lv" by (simp add: alloc_inv_def)
  then have "lv = [] \<longrightarrow> total_size s = 0" by (auto simp: live_bytes_def unat_eq_0)
  with t show ?thesis
    using allocate_Inr_header(1) deallocate_Inr_total by blast
qed

lemma size_class_100: "nextPowerOf2GT8 100 = 128 \<and> TrailingZeros32 128 = 7"
  by (simp add: nextPowerOf2GT8_def TrailingZeros32_def trailing_zeros_pos)

theorem bytes_in_use_invariant_witness:
  "unat (mem_length (zero_memory 1024)) + 16777224 < (2::nat) ^ 32
   \<and> run_live (newAllocator (zero_memory 1024) 0) [] [Allocate 4, Allocate 100, Deallocate 8, Allocate 4, Deallocate 24]
       = Some (the (run_live (newAllocator (zero_memory 1024) 0) [] [Allocate 4, Allocate 100, Deallocate 8, Allocate 4, Deallocate 24]))
   \<and> snd (the (run_live (newAllocator (zero_memory 1024) 0) [] [Allocate 4, Allocate 100, Deallocate 8, Allocate 4, Deallocate 24]))
       = [(160, 4)]
   \<and> unat (total_size (fst (the (run_live (newAllocator (zero_memory 1024) 0) [] [Allocate 4, Allocate 100, Deallocate 8, Allocate 4, Deallocate 24]))))
       = live_bytes [(160, 4)]
   \<and> live_bytes [(160, 4)] = 16"
proof -
  let ?r = "run_live (newAllocator (zero_memory 1024) 0) [] [Allocate 4, Allocate 100, Deallocate 8, Allocate 4, Deallocate 24]"
  have 1: "unat (mem_length (zero_memory 1024)) + 16777224 < (2::nat) ^ 32"
    by (simp add: zero_memory_def)
  have 2: "?r = Some (fst (the ?r), snd (the ?r))"
    by (simp add: eval_defs size_class_4 size_class_100 copy_bytes_4)
  have 3: "snd (the ?r) = [(160, 4)]"
    by (simp add: eval_defs size_class_4 size_class_100 copy_bytes_4)
  from bytes_in_use_invariant [OF 1 2] have "unat (total_size (fst (the ?r))) = live_bytes (snd (the ?r))" by blast
  then show ?thesis using 1 2 3 by (simp add: live_bytes_def size_class_4)
qed

lemma size_class_16M: "nextPowerOf2GT8 16777216 = 16777216" "class_of 16777216 = 21"
proof -
  show 1: "nextPowerOf2GT8 16777216 = 16777216" by (simp add: nextPowerOf2GT8_def)
  have "(16777216 :: u32) = 2 ^ 24" by simp
  then have "TrailingZeros32 16777216 = 24"
    using trailing_zeros_power [of 24 32] by (simp add: TrailingZeros32_def)
  then show "class_of 16777216 = 21" by (simp add: class_of_def 1)
qed

lemma big_step:
  assumes po: "ptr_offset s = 0" and len: "mem_length (heap s) = 4294901760"
    and mx: "max_heap_size s = 4294901760" and hd: "heads s 21 = 0"
    and bu: "bumper s = of_nat K" and to: "total_size s = of_nat K"
    and K: "K = k * 16777224" and k: "k < 256"
  shows "\<exists>p s'. allocate s 16777216 = (Inr p, s') \<and> ptr_offset s' = 0
     \<and> mem_length (heap s') = 4294901760 \<and> max_heap_size s' = 4294901760 \<and> heads s' 21 = 0
     \<and> bumper s' = of_nat (K + 16777224) \<and> total_size s' = of_nat (K + 16777224)"
proof -
  have kb: "K \<le> 4278192120" using k K by simp
  then have ub: "unat (bumper s) = K" unfolding bu by (simp add: unat_of_nat32)
  have e: "(16777216 :: u32) + 8 + of_nat K = of_nat (K + 16777224)" by simp
  have "unat (of_nat (K + 16777224) :: u32) \<le> 4294901760"
  proof (cases "k = 255")
    case True
    then have "K + 16777224 = 4294969344" using K by simp
    then have "unat (of_nat (K + 16777224) :: u32) = 4294969344 mod 2 ^ 32" by (simp only: unat_of_nat) simp
    then show ?thesis by simp
  next
    case False
    then have le: "K + 16777224 \<le> 4278192120" using k K by simp
    then have "K + 16777224 < 2 ^ 32" by simp
    then have "unat (of_nat (K + 16777224) :: u32) = K + 16777224" by (rule unat_of_nat32)
    then show ?thesis using le by linarith
  qed
  then have chk: "nextPowerOf2GT8 16777216 + 8 + total_size s \<le> max_heap_size s"
    unfolding size_class_16M to mx e by (simp add: word_le_nat_alt)
  have n: "(16777216 :: u32) \<le> MAX_POSSIBLE_ALLOCATION" by (simp add: MAX_POSSIBLE_ALLOCATION_def)
  have hd': "heads s (class_of 16777216) = 0" using hd by (simp add: size_class_16M)
  have nw: "unat (ptr_offset s) + unat (bumper s) + 8 \<le> 2 ^ 32" "unat (bumper s) + 8 < 2 ^ 32"
    using kb by (simp_all add: po ub)
  have ok: "unat (ptr_offset s) + unat (bumper s) + 8 \<le> unat (mem_length (heap s))"
    using kb by (simp add: po ub len)
  show ?thesis
    unfolding allocate_bump_ok [OF n chk hd' nw ok]
    using po len mx hd bu to by (simp add: size_class_16M)
qed

lemma big_run:
  assumes "ptr_offset s = 0" "mem_length (heap s) = 4294901760"
    "max_heap_size s = 4294901760" "heads s 21 = 0"
    "bumper s = of_nat K" "total_size s = of_nat K" "K = k * 16777224"
    "k + m \<le> 256"
  shows "\<exists>s' lv'. run_live s lv (replicate m (Allocate 16777216)) = Some (s', lv')
     \<and> total_size s' = of_nat (K + m * 16777224)
     \<and> live_bytes lv' = live_bytes lv + m * 16777224"
  using assms
proof (induction m arbitrary: s lv k K)
  case 0
  then show ?case by simp
next
  case (Suc m)
  from Suc.prems have "k < 256" by simp
  from big_step [OF Suc.prems(1-7) this] obtain p s1 where
    a: "allocate s 16777216 = (Inr p, s1)" and s1: "ptr_offset s1 = 0"
     "mem_length (heap s1) = 4294901760" "max_heap_size s1 = 4294901760" "heads s1 21 = 0"
     "bumper s1 = of_nat (K + 16777224)" "total_size s1 = of_nat (K + 16777224)"
    by blast
  have K': "K + 16777224 = Suc k * 16777224" using Suc.prems(7) by simp
  have "Suc k + m \<le> 256" using Suc.prems by simp
  from Suc.IH [OF s1 K' this, of "(p, 16777216) # lv"] obtain s' lv' where
    r: "run_live s1 ((p, 16777216) # lv) (replicate m (Allocate 16777216)) = Some (s', lv')"
    and t: "total_size s' = of_nat (K + 16777224 + m * 16777224)"
    and b: "live_bytes lv' = live_bytes ((p, 16777216) # lv) + m * 16777224"
    by blast
  have "live_bytes ((p, 16777216) # lv) = live_bytes lv + 16777224"
    by (simp add: live_bytes_def size_class_16M)
  with r t b a show ?case by (simp add: add.assoc)
qed

text \<open>
  Without the bound on the memory the claim fails: on a memory of \<open>2^32 - 65536\<close> bytes,
  256 allocations of 16 MiB all succeed (the space check wraps on the last one), and the
  running total is 2048 while the live allocations take \<open>2^32 + 2048\<close> bytes.
\<close>

theorem bytes_in_use_wraps:
  "run_live (newAllocator (zero_memory 4294901760) 0) [] (replicate 256 (Allocate 16777216)) \<noteq> None
   \<and> unat (total_size (fst (the (run_live (newAllocator (zero_memory 4294901760) 0) []
          (replicate 256 (Allocate 16777216)))))) = 2048
   \<and> live_bytes (snd (the (run_live (newAllocator (zero_memory 4294901760) 0) []
          (replicate 256 (Allocate 16777216))))) = 4294969344"
proof -
  let ?s = "newAllocator (zero_memory 4294901760) 0"
  have "\<exists>s' lv'. run_live ?s [] (replicate 256 (Allocate 16777216)) = Some (s', lv')
     \<and> total_size s' = of_nat (0 + 256 * 16777224)
     \<and> live_bytes lv' = live_bytes [] + 256 * 16777224"
    by (rule big_run [where k = 0]) (simp_all add: newAllocator_def zero_memory_def ALIGNMENT_def)
  then obtain s' lv' where "run_live ?s [] (replicate 256 (Allocate 16777216)) = Some (s', lv')"
    "total_size s' = of_nat (256 * 16777224)" "live_bytes lv' = 256 * 16777224"
    by (auto simp: live_bytes_def)
  then show ?thesis by simp
qed

section \<open>The block at offset 0\<close>

lemma allocate_error_state:
  assumes "fst (allocate s n) = Inl e" "e \<noteq> RuntimePanic"
  shows "snd (allocate s n) = s"
  using assms write_header_result
  by (fastforce simp: allocate_def Let_def bump_def split: if_splits option.splits prod.splits)

lemma allocate_Inr_paths:
  assumes "allocate s n = (Inr p, s')"
  shows "ptr_offset s' = ptr_offset s" and "mem_length (heap s') = mem_length (heap s)"
    and "heads s (class_of n) \<noteq> 0 \<Longrightarrow> p = ptr_offset s + (heads s (class_of n) + 8) \<and> bumper s' = bumper s"
    and "heads s (class_of n) = 0 \<Longrightarrow>
           p = ptr_offset s + (bumper s + 8) \<and> bumper s' = bumper s + (nextPowerOf2GT8 n + 8)"
proof -
  note n = allocate_Inr_checks [OF assms]
  note sc = size_class [OF n(1)]
  let ?li = "int (class_of n)" and ?c = "class_of n"
  have "\<exists>f ptr. write_header f ptr ?li (nextPowerOf2GT8 n) = (Inr p, s')
      \<and> ptr_offset f = ptr_offset s \<and> mem_length (heap f) = mem_length (heap s)
      \<and> (if heads s ?c \<noteq> 0 then ptr = heads s ?c + 8 \<and> bumper f = bumper s
          else ptr = bumper s + 8 \<and> bumper f = bumper s + (nextPowerOf2GT8 n + 8))"
    using assms n sc
    by (auto simp: allocate_def Let_def bump_def N_def not_less [symmetric]
        split: if_splits option.splits)
  then obtain f ptr where w: "write_header f ptr ?li (nextPowerOf2GT8 n) = (Inr p, s')"
    and f: "ptr_offset f = ptr_offset s" "mem_length (heap f) = mem_length (heap s)"
    and c: "if heads s ?c \<noteq> 0 then ptr = heads s ?c + 8 \<and> bumper f = bumper s
          else ptr = bumper s + 8 \<and> bumper f = bumper s + (nextPowerOf2GT8 n + 8)"
    by blast
  note h = write_header_Inr [OF w]
  show "ptr_offset s' = ptr_offset s" "mem_length (heap s') = mem_length (heap s)"
    using h f by simp_all
  show "heads s ?c \<noteq> 0 \<Longrightarrow> p = ptr_offset s + (heads s ?c + 8) \<and> bumper s' = bumper s"
    using h f c by simp
  show "heads s ?c = 0 \<Longrightarrow>
           p = ptr_offset s + (bumper s + 8) \<and> bumper s' = bumper s + (nextPowerOf2GT8 n + 8)"
    using h f c by simp
qed

lemma allocate_cursor:
  assumes j: "cursor_ok s" and a: "allocate s n = (Inr p, s')"
  shows "cursor_ok s'" and "ptr_offset s' = ptr_offset s"
    and "bumper s \<noteq> 0 \<Longrightarrow> bumper s' \<noteq> 0 \<and> p \<noteq> ptr_offset s + 8"
proof -
  note n = allocate_Inr_checks [OF a]
  note sc = size_class [OF n(1)]
  note pa = allocate_Inr_paths [OF a]
  from j have len: "unat (mem_length (heap s)) + 16777224 < 2 ^ 32"
    and nw: "unat (ptr_offset s) + unat (bumper s) + 8 \<le> 2 ^ 32" "unat (bumper s) + 8 < 2 ^ 32"
    by (simp_all add: cursor_ok_def)
  show "ptr_offset s' = ptr_offset s" by (rule pa(1))
  have "cursor_ok s' \<and> (bumper s \<noteq> 0 \<longrightarrow> bumper s' \<noteq> 0 \<and> p \<noteq> ptr_offset s + 8)"
  proof (cases "heads s (class_of n) = 0")
    case False
    from pa(3) [OF False] have "p = ptr_offset s + (heads s (class_of n) + 8)" "bumper s' = bumper s"
      by simp_all
    moreover from this False have "p \<noteq> ptr_offset s + 8" by simp
    ultimately show ?thesis using j pa(1,2) by (simp add: cursor_ok_def)
  next
    case True
    have ok: "unat (ptr_offset s) + unat (bumper s) + 8 \<le> unat (mem_length (heap s))"
    proof (rule ccontr)
      assume "\<not> ?thesis"
      from allocate_bump_fail [OF n True nw this] a show False by simp
    qed
    from pa(4) [OF True] have p: "p = ptr_offset s + (bumper s + 8)"
      and b: "bumper s' = bumper s + (nextPowerOf2GT8 n + 8)" by simp_all
    have bb: "unat (nextPowerOf2GT8 n + 8) = block_bytes (class_of n)"
      using sc(3) block_bytes_bound [OF sc(2)] by (simp add: unat_add32 block_bytes_def)
    have ub: "unat (bumper s') = unat (bumper s) + block_bytes (class_of n)"
      unfolding b using bb ok len block_bytes_bound [OF sc(2)] by (simp add: unat_add32)
    then have "unat (bumper s') \<noteq> 0" using block_bytes_pos [of "class_of n"] by simp
    then have nz: "bumper s' \<noteq> 0" by auto
    have "cursor_ok s'"
      using ub ok len block_bytes_bound [OF sc(2)] pa(1,2) by (simp add: cursor_ok_def)
    moreover have "bumper s \<noteq> 0 \<longrightarrow> p \<noteq> ptr_offset s + 8" unfolding p by simp
    ultimately show ?thesis using nz by simp
  qed
  then show "cursor_ok s'" and "bumper s \<noteq> 0 \<Longrightarrow> bumper s' \<noteq> 0 \<and> p \<noteq> ptr_offset s + 8"
    by simp_all
qed

lemma deallocate_cursor:
  assumes "deallocate s p = (r, s')"
  shows "bumper s' = bumper s" "ptr_offset s' = ptr_offset s" "mem_length (heap s') = mem_length (heap s)"
  using assms
  by (auto simp: deallocate_def Let_def set_heap_4bytes_def split: if_splits option.splits)

lemma cursor_fresh:
  assumes "unat (mem_length mem) + 16777224 < 2 ^ 32"
  shows "cursor_ok (newAllocator mem offs)"
  using inv_fresh [OF assms, of offs] by (simp add: alloc_inv_def cursor_ok_def)

lemma step_cursor:
  assumes j: "cursor_ok s" and st: "step s x = (r, s')" and np: "r \<noteq> Failed RuntimePanic"
  shows "cursor_ok s'" and "ptr_offset s' = ptr_offset s"
    and "bumper s \<noteq> 0 \<Longrightarrow> bumper s' \<noteq> 0 \<and> r \<noteq> Pointer (ptr_offset s + 8)"
proof -
  have "cursor_ok s' \<and> ptr_offset s' = ptr_offset s
      \<and> (bumper s \<noteq> 0 \<longrightarrow> bumper s' \<noteq> 0 \<and> r \<noteq> Pointer (ptr_offset s + 8))"
  proof (cases x)
    case (Allocate n)
    obtain q s1 where a: "allocate s n = (q, s1)" by (cases "allocate s n")
    show ?thesis
    proof (cases q)
      case (Inl e)
      with a st Allocate np have "e \<noteq> RuntimePanic" "r = Failed e" "s' = s1" by auto
      moreover from this allocate_error_state [of s n e] a Inl have "s1 = s" by simp
      ultimately show ?thesis using j by simp
    next
      case (Inr p)
      with a st Allocate have "r = Pointer p" "s' = s1" by auto
      with allocate_cursor [OF j a [unfolded Inr]] show ?thesis by simp
    qed
  next
    case (Deallocate p)
    obtain q s1 where d: "deallocate s p = (q, s1)" by (cases "deallocate s p")
    then have "s' = s1" "r \<noteq> Pointer (ptr_offset s + 8)"
      using st Deallocate by (auto split: sum.splits)
    with deallocate_cursor [OF d] j show ?thesis by (simp add: cursor_ok_def)
  qed
  then show "cursor_ok s'" "ptr_offset s' = ptr_offset s"
    "bumper s \<noteq> 0 \<Longrightarrow> bumper s' \<noteq> 0 \<and> r \<noteq> Pointer (ptr_offset s + 8)"
    by simp_all
qed

lemma run_ops_cursor:
  assumes "cursor_ok s" "run_ops s ops = (rs, s')" "Failed RuntimePanic \<notin> set rs"
  shows "cursor_ok s'"
  using assms
proof (induction ops arbitrary: s rs)
  case Nil
  then show ?case by simp
next
  case (Cons x ops)
  obtain r s1 where st: "step s x = (r, s1)" by (cases "step s x")
  show ?case
  proof (cases "r = Failed RuntimePanic")
    case True
    with st Cons.prems show ?thesis by auto
  next
    case False
    obtain rs1 s2 where r0: "run_ops s1 ops = (rs1, s2)" by (cases "run_ops s1 ops")
    have e: "rs = r # rs1" "s2 = s'"
      using st False r0 Cons.prems(2) by (auto split: reply.splits error.splits)
    have r: "run_ops s1 ops = (rs1, s')" using r0 e(2) by simp
    from Cons.IH [OF step_cursor(1) [OF Cons.prems(1) st False] r] e Cons.prems(3)
    show ?thesis by simp
  qed
qed

lemma run_ops_first_block:
  assumes "cursor_ok s" "bumper s \<noteq> 0"
  shows "Pointer (ptr_offset s + 8) \<notin> set (fst (run_ops s ops))"
  using assms
proof (induction ops arbitrary: s)
  case Nil
  then show ?case by simp
next
  case (Cons x ops)
  obtain r s1 where st: "step s x = (r, s1)" by (cases "step s x")
  show ?case
  proof (cases "r = Failed RuntimePanic")
    case True
    with st show ?thesis by simp
  next
    case False
    note sc = step_cursor [OF Cons.prems(1) st False]
    obtain rs1 s2 where r: "run_ops s1 ops = (rs1, s2)" by (cases "run_ops s1 ops")
    have e: "fst (run_ops s (x # ops)) = r # rs1"
      using st False r by (auto split: reply.splits error.splits)
    from Cons.IH [OF sc(1)] sc(2,3) Cons.prems(2) r
    have "Pointer (ptr_offset s + 8) \<notin> set rs1" "r \<noteq> Pointer (ptr_offset s + 8)" by simp_all
    with e show ?thesis by simp
  qed
qed

text \<open>
  Claim C10, as amended. Take an allocator made by \<open>newAllocator\<close> on a memory of less than
  \<open>2^32 - 2^24 - 8\<close> bytes, after any calls that did not panic and carved at least one block
  (the cursor is not 0). When the pointer \<open>ptr_offset + 8\<close> of the block at offset 0 is
  deallocated, the head of its class becomes 0, so an allocation of that class takes the
  bump path and carves a fresh block at the cursor; and whatever calls follow, no
  allocation returns \<open>ptr_offset + 8\<close> again.
\<close>

theorem first_block_never_returned:
  assumes "unat (mem_length mem) + 16777224 < 2 ^ 32"
    and "run_ops (newAllocator mem offs) ops1 = (rs1, s1)"
    and "Failed RuntimePanic \<notin> set rs1"
    and "bumper s1 \<noteq> 0"
    and "deallocate s1 (ptr_offset s1 + 8) = (Inr (), s2)"
  shows "(\<exists>idx. get_heap_byte s1 0 = Some idx \<and> unat idx < 22 \<and> heads s2 (unat idx) = 0
           \<and> (\<forall>n p s3. class_of n = unat idx \<and> allocate s2 n = (Inr p, s3) \<longrightarrow>
                 p = ptr_offset s2 + (bumper s2 + 8)
                 \<and> bumper s3 = bumper s2 + (nextPowerOf2GT8 n + 8)))
     \<and> Pointer (ptr_offset s2 + 8) \<notin> set (fst (run_ops s2 ops2))"
proof
  from assms(5) obtain idx where g: "get_heap_byte s1 0 = Some idx" and i: "unat idx < 22"
    and h: "heads s2 (unat idx) = 0"
    by (auto simp: deallocate_def Let_def N_def set_heap_4bytes_def split: if_splits option.splits)
  have "p = ptr_offset s2 + (bumper s2 + 8) \<and> bumper s3 = bumper s2 + (nextPowerOf2GT8 n + 8)"
    if "class_of n = unat idx" "allocate s2 n = (Inr p, s3)" for n p s3
    using allocate_Inr_paths(4) [OF that(2)] h that(1) by simp
  with g i h show "\<exists>idx. get_heap_byte s1 0 = Some idx \<and> unat idx < 22 \<and> heads s2 (unat idx) = 0
           \<and> (\<forall>n p s3. class_of n = unat idx \<and> allocate s2 n = (Inr p, s3) \<longrightarrow>
                 p = ptr_offset s2 + (bumper s2 + 8)
                 \<and> bumper s3 = bumper s2 + (nextPowerOf2GT8 n + 8))"
    by blast
next
  have "cursor_ok s1"
    by (rule run_ops_cursor [OF cursor_fresh [OF assms(1)] assms(2,3)])
  with deallocate_cursor [OF assms(5)] assms(4) have "cursor_ok s2" "bumper s2 \<noteq> 0"
    by (simp_all add: cursor_ok_def)
  then show "Pointer (ptr_offset s2 + 8) \<notin> set (fst (run_ops s2 ops2))"
    by (rule run_ops_first_block)
qed

theorem first_block_never_returned_witness:
  "unat (mem_length (zero_memory 1024)) + 16777224 < (2::nat) ^ 32
   \<and> run_ops (newAllocator (zero_memory 1024) 0) [Allocate 4, Allocate 4]
        = ([Pointer 8, Pointer 24], snd (run_ops (newAllocator (zero_memory 1024) 0) [Allocate 4, Allocate 4]))
   \<and> Failed RuntimePanic \<notin> set [Pointer 8, Pointer 24]
   \<and> bumper (snd (run_ops (newAllocator (zero_memory 1024) 0) [Allocate 4, Allocate 4])) \<noteq> 0
   \<and> ptr_offset (snd (run_ops (newAllocator (zero_memory 1024) 0) [Allocate 4, Allocate 4])) = 0
   \<and> deallocate (snd (run_ops (newAllocator (zero_memory 1024) 0) [Allocate 4, Allocate 4])) 8
        = (Inr (), snd (deallocate (snd (run_ops (newAllocator (zero_memory 1024) 0) [Allocate 4, Allocate 4])) 8))
   \<and> Pointer 8 \<notin> set (fst (run_ops
          (snd (deallocate (snd (run_ops (newAllocator (zero_memory 1024) 0) [Allocate 4, Allocate 4])) 8))
          [Allocate 4, Allocate 4]))
   \<and> fst (run_ops
          (snd (deallocate (snd (run_ops (newAllocator (zero_memory 1024) 0) [Allocate 4, Allocate 4])) 8))
          [Allocate 4, Allocate 4]) = [Pointer 40, Pointer 56]"
proof -
  let ?s1 = "snd (run_ops (newAllocator (zero_memory 1024) 0) [Allocate 4, Allocate 4])"
  let ?s2 = "snd (deallocate ?s1 8)"
  have 1: "unat (mem_length (zero_memory 1024)) + 16777224 < (2::nat) ^ 32"
    by (simp add: zero_memory_def)
  have 2: "run_ops (newAllocator (zero_memory 1024) 0) [Allocate 4, Allocate 4]
        = ([Pointer 8, Pointer 24], ?s1)"
    by (simp add: eval_defs size_class_4)
  have 3: "Failed RuntimePanic \<notin> set [Pointer 8, Pointer 24]" by simp
  have 4: "bumper ?s1 \<noteq> 0" by (simp add: eval_defs size_class_4)
  have po: "ptr_offset ?s1 = 0" by (simp add: eval_defs size_class_4)
  have 5: "deallocate ?s1 (ptr_offset ?s1 + 8) = (Inr (), ?s2)"
    by (simp add: eval_defs size_class_4 copy_bytes_4)
  have po2: "ptr_offset ?s2 = 0" by (simp add: eval_defs size_class_4 copy_bytes_4)
  have 6: "fst (run_ops ?s2 [Allocate 4, Allocate 4]) = [Pointer 40, Pointer 56]"
    by (simp add: eval_defs size_class_4 copy_bytes_4)
  from first_block_never_returned [OF 1 2 3 4 5, of "[Allocate 4, Allocate 4]"]
  have "Pointer (ptr_offset ?s2 + 8) \<notin> set (fst (run_ops ?s2 [Allocate 4, Allocate 4]))" by blast
  then have 7: "Pointer 8 \<notin> set (fst (run_ops ?s2 [Allocate 4, Allocate 4]))"
    unfolding po2 add_0 .
  from 5 have 8: "deallocate ?s1 8 = (Inr (), ?s2)" unfolding po add_0 .
  show ?thesis using 1 2 3 4 po 8 6 7 by (intro conjI)
qed

lemma fits_append:
  "fits L B T (xs @ ys) \<longleftrightarrow> fits L B T xs \<and> fits L (B + taken xs) (T + taken xs) ys"
  by (induction xs arbitrary: B T) (auto simp: taken_def add.assoc)

lemma fits_replicate:
  "B + m * 16777224 \<le> 2 ^ 32 \<Longrightarrow> T + m * 16777224 \<le> L \<Longrightarrow> 4294901760 \<le> L \<Longrightarrow>
   fits L B T (replicate m 16777216)"
proof (induction m arbitrary: B T)
  case 0
  then show ?case by simp
next
  case (Suc m)
  have "fits L (B + 16777224) (T + 16777224) (replicate m 16777216)"
    by (rule Suc.IH) (use Suc.prems in simp_all)
  then show ?case using Suc.prems by (simp add: size_class_16M)
qed

lemma taken_replicate: "taken (replicate m 16777216) = m * 16777224"
  by (induction m) (simp_all add: taken_def size_class_16M)

lemma bump_step:
  assumes po: "ptr_offset s = 0" and len: "unat (mem_length (heap s)) = L"
    and mx: "unat (max_heap_size s) = L" and hd: "\<forall>c. heads s c = 0"
    and bu: "bumper s = of_nat B" and to: "total_size s = of_nat T"
    and n: "n \<le> 16777216" and B: "B + 8 \<le> L"
    and T: "T + (unat (nextPowerOf2GT8 n) + 8) \<le> L"
  shows "\<exists>s'. allocate s n = (Inr (of_nat B + 8), s') \<and> ptr_offset s' = 0
     \<and> unat (mem_length (heap s')) = L \<and> unat (max_heap_size s') = L \<and> (\<forall>c. heads s' c = 0)
     \<and> bumper s' = of_nat (B + (unat (nextPowerOf2GT8 n) + 8))
     \<and> total_size s' = of_nat (T + (unat (nextPowerOf2GT8 n) + 8))"
proof -
  have L: "L < 2 ^ 32" using unat_lt32 [of "mem_length (heap s)"] len by simp
  have ub: "unat (bumper s) = B" unfolding bu using B L by (simp add: unat_of_nat32)
  have e: "nextPowerOf2GT8 n + 8 + of_nat T = (of_nat (T + (unat (nextPowerOf2GT8 n) + 8)) :: u32)"
    by simp
  have "unat (of_nat (T + (unat (nextPowerOf2GT8 n) + 8)) :: u32) = T + (unat (nextPowerOf2GT8 n) + 8)"
    using T L by (intro unat_of_nat32) simp
  then have chk: "nextPowerOf2GT8 n + 8 + total_size s \<le> max_heap_size s"
    unfolding to e using T mx by (simp add: word_le_nat_alt)
  have n': "n \<le> MAX_POSSIBLE_ALLOCATION" using n by (simp add: MAX_POSSIBLE_ALLOCATION_def)
  have hd': "heads s (class_of n) = 0" using hd by simp
  have nw: "unat (ptr_offset s) + unat (bumper s) + 8 \<le> 2 ^ 32" "unat (bumper s) + 8 < 2 ^ 32"
    using B L by (simp_all add: po ub)
  have ok: "unat (ptr_offset s) + unat (bumper s) + 8 \<le> unat (mem_length (heap s))"
    using B by (simp add: po ub len)
  show ?thesis
    unfolding allocate_bump_ok [OF n' chk hd' nw ok]
    using po len mx hd bu to by simp
qed

lemma run_ops_Allocate_ok:
  assumes "allocate s n = (Inr p, s1)"
  shows "run_ops s (Allocate n # ops) = (Pointer p # fst (run_ops s1 ops), snd (run_ops s1 ops))"
  using assms by (simp add: split_beta)

lemma bump_many:
  assumes "ptr_offset s = 0" "unat (mem_length (heap s)) = L"
    "unat (max_heap_size s) = L" "\<forall>c. heads s c = 0"
    "bumper s = of_nat B" "total_size s = of_nat T"
    "fits L B T ns"
  shows "\<exists>s'. snd (run_ops s (map Allocate ns @ ops)) = snd (run_ops s' ops)
     \<and> (last (fst (run_ops s (map Allocate ns @ ops))) = last (fst (run_ops s' ops)) \<or> ops = [])
     \<and> ptr_offset s' = 0
     \<and> unat (mem_length (heap s')) = L \<and> unat (max_heap_size s') = L \<and> (\<forall>c. heads s' c = 0)
     \<and> bumper s' = of_nat (B + taken ns) \<and> total_size s' = of_nat (T + taken ns)"
  using assms
proof (induction ns arbitrary: s B T)
  case Nil
  then show ?case by (auto simp: taken_def)
next
  case (Cons n ns)
  let ?b = "unat (nextPowerOf2GT8 n) + 8"
  from Cons.prems(7) have f: "n \<le> 16777216" "B + 8 \<le> L" "T + ?b \<le> L" "fits L (B + ?b) (T + ?b) ns"
    by simp_all
  from bump_step [OF Cons.prems(1-6) f(1-3)] obtain s1 where
    a: "allocate s n = (Inr (of_nat B + 8), s1)" and s1: "ptr_offset s1 = 0"
     "unat (mem_length (heap s1)) = L" "unat (max_heap_size s1) = L" "\<forall>c. heads s1 c = 0"
     "bumper s1 = of_nat (B + ?b)" "total_size s1 = of_nat (T + ?b)"
    by blast
  from Cons.IH [OF s1 f(4)] obtain s' where
    r: "snd (run_ops s1 (map Allocate ns @ ops)) = snd (run_ops s' ops)"
     "last (fst (run_ops s1 (map Allocate ns @ ops))) = last (fst (run_ops s' ops)) \<or> ops = []"
    and s': "ptr_offset s' = 0"
     "unat (mem_length (heap s')) = L" "unat (max_heap_size s') = L" "\<forall>c. heads s' c = 0"
     "bumper s' = of_nat (B + ?b + taken ns)" "total_size s' = of_nat (T + ?b + taken ns)"
    by blast
  have t: "taken (n # ns) = ?b + taken ns" by (simp add: taken_def)
  have ne: "fst (run_ops s1 (map Allocate ns @ ops)) \<noteq> []" if "ops \<noteq> []"
    using that by (cases "map Allocate ns @ ops") (auto split: prod.splits reply.splits error.splits)
  have e: "run_ops s (map Allocate (n # ns) @ ops)
     = (Pointer (of_nat B + 8) # fst (run_ops s1 (map Allocate ns @ ops)),
        snd (run_ops s1 (map Allocate ns @ ops)))"
    using run_ops_Allocate_ok [OF a] by simp
  show ?case
    unfolding e t using r s' ne by (intro exI [of _ s']) (auto simp: add.assoc)
qed

lemma tz_16M: "TrailingZeros32 16777216 = 24"
proof -
  have "(16777216 :: u32) = 2 ^ 24" by simp
  then show ?thesis using trailing_zeros_power [of 24 32] by (simp add: TrailingZeros32_def)
qed

lemma wrap_first:
  "fst (allocate (newAllocator (zero_memory 4294901760) 0) 16777216) = Inr 8"
  "fst (deallocate (snd (allocate (newAllocator (zero_memory 4294901760) 0) 16777216)) 8) = Inr ()"
  by (simp_all add: eval_defs size_class_16M tz_16M copy_bytes_4)

lemma wrap_start_fields:
  "ptr_offset wrap_start = 0" "unat (mem_length (heap wrap_start)) = 4294901760"
  "unat (max_heap_size wrap_start) = 4294901760" "\<forall>c. heads wrap_start c = 0"
  "bumper wrap_start = of_nat 16777224" "total_size wrap_start = of_nat 0"
  by (simp_all add: wrap_start_def eval_defs size_class_16M tz_16M copy_bytes_4)

lemma taken_small: "taken small_sizes = 16775176"
  by (simp add: taken_def small_sizes_def nextPowerOf2GT8_def)

lemma fits_small: "fits 4294901760 16777224 0 small_sizes"
  by (simp add: small_sizes_def nextPowerOf2GT8_def)

lemma fits_wrap: "fits 4294901760 16777224 0 (small_sizes @ replicate 254 16777216)"
  unfolding fits_append taken_small
  by (intro conjI fits_small fits_replicate) simp_all

text \<open>
  Without the bound on the memory the claim fails: on a memory of \<open>2^32 - 65536\<close> bytes the
  first block, of 16 MiB, is allocated at pointer 8 and freed; 271 further allocations
  take the cursor to exactly \<open>2^32\<close>, which is 0 in \<^verbatim>\<open>uint32\<close>; the next allocation carves
  at offset 0 and returns the pointer 8.
\<close>

theorem first_block_returned_after_wrap:
  "fst (allocate (newAllocator (zero_memory 4294901760) 0) 16777216) = Inr 8
   \<and> fst (deallocate (snd (allocate (newAllocator (zero_memory 4294901760) 0) 16777216)) 8) = Inr ()
   \<and> ptr_offset wrap_start = 0 \<and> bumper wrap_start = 16777224
   \<and> last (fst (run_ops wrap_start wrap_ops)) = Pointer 8"
proof -
  from bump_many [OF wrap_start_fields fits_wrap, of "[Allocate 8]"]
  obtain s' where l: "last (fst (run_ops wrap_start wrap_ops)) = last (fst (run_ops s' [Allocate 8]))"
    and s': "ptr_offset s' = 0" "unat (mem_length (heap s')) = 4294901760"
      "unat (max_heap_size s') = 4294901760" "\<forall>c. heads s' c = 0"
      "bumper s' = of_nat (16777224 + taken (small_sizes @ replicate 254 16777216))"
      "total_size s' = of_nat (0 + taken (small_sizes @ replicate 254 16777216))"
    unfolding wrap_ops_def by auto
  have t: "taken (small_sizes @ replicate 254 16777216) = 4278190072"
    using taken_small taken_replicate [of 254] by (simp add: taken_def)
  have b: "bumper s' = of_nat 0" unfolding s'(5) t by simp
  have tt: "total_size s' = of_nat 4278190072" unfolding s'(6) t by simp
  have np: "nextPowerOf2GT8 8 = 8" by (simp add: nextPowerOf2GT8_def)
  from bump_step [OF s'(1-4) b tt, of 8] obtain s'' where "allocate s' 8 = (Inr (of_nat 0 + 8), s'')"
    by (auto simp: np)
  then have "last (fst (run_ops s' [Allocate 8])) = Pointer 8" by simp
  with l wrap_first wrap_start_fields show ?thesis by simp
qed

end
